theory Spec2Isabelle
  imports Main "HOL-Library.Word" "HOL-Library.Multiset"
begin

section \<open>Images and the imaging operations used by encode.py\<close>

text \<open>
  An image is its size and its raster. The raster carries the mode: 8-bit greyscale
  (L), greyscale with alpha (LA), truecolour (RGB) and truecolour with alpha (RGBA), the
  8-bit modes a PNG decodes to without a palette. A raster is read at column x and row y;
  only the positions inside the size belong to the image. Palette and 16-bit modes are
  not modelled.
\<close>

type_synonym byte = "8 word"
type_synonym rgb = "byte \<times> byte \<times> byte"
type_synonym rgba = "byte \<times> byte \<times> byte \<times> byte"

datatype mode = ModeL | ModeLA | ModeRGB | ModeRGBA

datatype raster =
    L "nat \<Rightarrow> nat \<Rightarrow> byte"
  | LA "nat \<Rightarrow> nat \<Rightarrow> byte \<times> byte"
  | RGB "nat \<Rightarrow> nat \<Rightarrow> rgb"
  | RGBA "nat \<Rightarrow> nat \<Rightarrow> rgba"

record image =
  xsize :: nat
  ysize :: nat
  raster :: raster

datatype error = OSError | ValueError | UnidentifiedImageError

fun mode_of :: "raster \<Rightarrow> mode" where
  "mode_of (L f) = ModeL"
| "mode_of (LA f) = ModeLA"
| "mode_of (RGB f) = ModeRGB"
| "mode_of (RGBA f) = ModeRGBA"

text \<open>
  The library's conversion of a colour pixel to greyscale is the ITU-R 601-2 luma
  transform in 16.16 fixed point with rounding:
  (r * 19595 + g * 38470 + b * 7471 + 0x8000) >> 16. The three weights add up to 65536,
  so the result fits a byte.
\<close>

definition rgb2l :: "byte \<Rightarrow> byte \<Rightarrow> byte \<Rightarrow> byte" where
  "rgb2l r g b =
     of_nat ((unat r * 19595 + unat g * 38470 + unat b * 7471 + 32768) div 65536)"

fun rgba_at :: "raster \<Rightarrow> nat \<Rightarrow> nat \<Rightarrow> rgba" where
  "rgba_at (L f) x y = (f x y, f x y, f x y, 255)"
| "rgba_at (LA f) x y = (case f x y of (l, a) \<Rightarrow> (l, l, l, a))"
| "rgba_at (RGB f) x y = (case f x y of (r, g, b) \<Rightarrow> (r, g, b, 255))"
| "rgba_at (RGBA f) x y = f x y"

fun raster_of :: "mode \<Rightarrow> (nat \<Rightarrow> nat \<Rightarrow> rgba) \<Rightarrow> raster" where
  "raster_of ModeL f = L (\<lambda>x y. case f x y of (r, g, b, a) \<Rightarrow> rgb2l r g b)"
| "raster_of ModeLA f = LA (\<lambda>x y. case f x y of (r, g, b, a) \<Rightarrow> (rgb2l r g b, a))"
| "raster_of ModeRGB f = RGB (\<lambda>x y. case f x y of (r, g, b, a) \<Rightarrow> (r, g, b))"
| "raster_of ModeRGBA f = RGBA f"

text \<open>\<open>img.convert(mode)\<close>: the size stays, each pixel is converted on its own.\<close>

definition convert :: "mode \<Rightarrow> image \<Rightarrow> image" where
  "convert m img =
     (if mode_of (raster img) = m then img
      else img\<lparr>raster := raster_of m (rgba_at (raster img))\<rparr>)"

definition absdiff :: "byte \<Rightarrow> byte \<Rightarrow> byte" where
  "absdiff a b = (if b \<le> a then a - b else b - a)"

text \<open>
  \<open>ImageChops.difference\<close>: the absolute difference of each band. The modes must be
  the same (ValueError otherwise); the result has the smaller of the two widths and the
  smaller of the two heights.
\<close>

fun difference_raster :: "raster \<Rightarrow> raster \<Rightarrow> error + raster" where
  "difference_raster (L f) (L g) = Inr (L (\<lambda>x y. absdiff (f x y) (g x y)))"
| "difference_raster (LA f) (LA g) =
     Inr (LA (\<lambda>x y. case (f x y, g x y) of
                ((l, a), (l', a')) \<Rightarrow> (absdiff l l', absdiff a a')))"
| "difference_raster (RGB f) (RGB g) =
     Inr (RGB (\<lambda>x y. case (f x y, g x y) of
                ((r, g, b), (r', g', b')) \<Rightarrow> (absdiff r r', absdiff g g', absdiff b b')))"
| "difference_raster (RGBA f) (RGBA g) =
     Inr (RGBA (\<lambda>x y. case (f x y, g x y) of
                ((r, g, b, a), (r', g', b', a')) \<Rightarrow>
                  (absdiff r r', absdiff g g', absdiff b b', absdiff a a')))"
| "difference_raster _ _ = Inl ValueError"

definition difference :: "image \<Rightarrow> image \<Rightarrow> error + image" where
  "difference img1 img2 =
     (case difference_raster (raster img1) (raster img2) of
        Inl e \<Rightarrow> Inl e
      | Inr r \<Rightarrow> Inr \<lparr>xsize = min (xsize img1) (xsize img2),
                     ysize = min (ysize img1) (ysize img2), raster = r\<rparr>)"

text \<open>\<open>img.point(f)\<close>: the function is applied to every band of every pixel.\<close>

fun point_raster :: "(byte \<Rightarrow> byte) \<Rightarrow> raster \<Rightarrow> raster" where
  "point_raster h (L f) = L (\<lambda>x y. h (f x y))"
| "point_raster h (LA f) = LA (\<lambda>x y. case f x y of (l, a) \<Rightarrow> (h l, h a))"
| "point_raster h (RGB f) = RGB (\<lambda>x y. case f x y of (r, g, b) \<Rightarrow> (h r, h g, h b))"
| "point_raster h (RGBA f) =
     RGBA (\<lambda>x y. case f x y of (r, g, b, a) \<Rightarrow> (h r, h g, h b, h a))"

definition point :: "(byte \<Rightarrow> byte) \<Rightarrow> image \<Rightarrow> image" where
  "point h img = img\<lparr>raster := point_raster h (raster img)\<rparr>"

text \<open>
  \<open>img.putalpha(alpha)\<close> with an image as the alpha: the alpha must be greyscale and of
  the image's size (ValueError otherwise). An image without an alpha band is converted to
  the mode with one first.
\<close>

fun putalpha_raster :: "raster \<Rightarrow> (nat \<Rightarrow> nat \<Rightarrow> byte) \<Rightarrow> raster" where
  "putalpha_raster (L f) m = LA (\<lambda>x y. (f x y, m x y))"
| "putalpha_raster (LA f) m = LA (\<lambda>x y. case f x y of (l, a) \<Rightarrow> (l, m x y))"
| "putalpha_raster (RGB f) m = RGBA (\<lambda>x y. case f x y of (r, g, b) \<Rightarrow> (r, g, b, m x y))"
| "putalpha_raster (RGBA f) m =
     RGBA (\<lambda>x y. case f x y of (r, g, b, a) \<Rightarrow> (r, g, b, m x y))"

definition putalpha :: "image \<Rightarrow> image \<Rightarrow> error + image" where
  "putalpha img alpha =
     (case raster alpha of
        L m \<Rightarrow>
          (if xsize alpha = xsize img \<and> ysize alpha = ysize img
           then Inr (img\<lparr>raster := putalpha_raster (raster img) m\<rparr>)
           else Inl ValueError)
      | _ \<Rightarrow> Inl ValueError)"

section \<open>The diff encoder: the image computed by \<open>process_image\<close>\<close>

text \<open>
  The body of \<open>process_image\<close> between opening the two files and serialising: both images
  go to RGB, the mask is 255 where the greyscale of the difference is positive, and the
  mask becomes the alpha band of the current image.
\<close>

definition mask_value :: "byte \<Rightarrow> byte" where
  "mask_value p = (if p > 0 then 255 else 0)"

definition sanitized_image :: "image \<Rightarrow> image \<Rightarrow> error + image" where
  "sanitized_image img_current img_base =
     (let img_current_rgb = convert ModeRGB img_current;
          img_base_rgb = convert ModeRGB img_base
      in case difference img_current_rgb img_base_rgb of
           Inl e \<Rightarrow> Inl e
         | Inr diff \<Rightarrow>
             (let mask = point mask_value (convert ModeL diff)
              in putalpha (convert ModeRGBA img_current_rgb) mask))"

text \<open>Reading one pixel of an image, as colour and as alpha.\<close>

definition rgb_at :: "image \<Rightarrow> nat \<Rightarrow> nat \<Rightarrow> rgb" where
  "rgb_at img x y = (case rgba_at (raster img) x y of (r, g, b, a) \<Rightarrow> (r, g, b))"

definition alpha_at :: "image \<Rightarrow> nat \<Rightarrow> nat \<Rightarrow> byte" where
  "alpha_at img x y = (case rgba_at (raster img) x y of (r, g, b, a) \<Rightarrow> a)"

definition solid :: "nat \<Rightarrow> nat \<Rightarrow> rgb \<Rightarrow> image" where
  "solid w h c = \<lparr>xsize = w, ysize = h, raster = RGB (\<lambda>x y. c)\<rparr>"

section \<open>The similarity scorer\<close>

text \<open>
  A path is a directory and a path relative to it (\<open>input_dir / rel\<close>). A file is a
  picture with its byte size, or bytes that do not decode as an image. The file system maps
  paths to files.
\<close>

type_synonym path = "string \<times> string"

datatype dfile = Picture nat image | Garbage nat

fun st_size :: "dfile \<Rightarrow> nat" where
  "st_size (Picture n img) = n"
| "st_size (Garbage n) = n"

definition Image_open :: "(path \<rightharpoonup> dfile) \<Rightarrow> path \<Rightarrow> error + image" where
  "Image_open fs p =
     (case fs p of
        None \<Rightarrow> Inl OSError
      | Some (Picture n img) \<Rightarrow> Inr img
      | Some (Garbage n) \<Rightarrow> Inl UnidentifiedImageError)"

text \<open>
  What the program takes from outside: the library's resampling, the PNG optimiser, the
  faults of the destination (its directory cannot be created, it cannot be opened for
  writing, the write raises and leaves the given file behind), and the orders in which the
  two thread pools run their tasks.
\<close>

record env =
  resize :: "image \<Rightarrow> nat \<times> nat \<Rightarrow> error + image"
  create_optimized_png :: "image \<Rightarrow> error + dfile"
  mkdir_fails :: "path \<Rightarrow> bool"
  open_wb_fails :: "path \<Rightarrow> bool"
  write_fails :: "path \<Rightarrow> dfile option"
  phase1_order :: "(nat \<times> nat) list \<Rightarrow> (nat \<times> nat) list"
  phase2_order :: "(nat \<times> nat) list \<Rightarrow> (nat \<times> nat) list"

text \<open>
  \<open>np.array\<close> of a greyscale image: a two-dimensional array of shape (height, width),
  read at row i and column j.
\<close>

record ndarray =
  shape0 :: nat
  shape1 :: nat
  cell :: "nat \<Rightarrow> nat \<Rightarrow> byte"

fun band0 :: "raster \<Rightarrow> nat \<Rightarrow> nat \<Rightarrow> byte" where
  "band0 (L f) x y = f x y"
| "band0 (LA f) x y = fst (f x y)"
| "band0 (RGB f) x y = fst (f x y)"
| "band0 (RGBA f) x y = fst (f x y)"

definition np_array :: "image \<Rightarrow> ndarray" where
  "np_array img =
     \<lparr>shape0 = ysize img, shape1 = xsize img, cell = (\<lambda>i j. band0 (raster img) j i)\<rparr>"

definition count_nonzero :: "ndarray \<Rightarrow> nat" where
  "count_nonzero arr =
     length (filter (\<lambda>(i, j). cell arr i j \<noteq> 0)
               (List.product [0..<shape0 arr] [0..<shape1 arr]))"

text \<open>
  The second image is brought to the size and mode of the first when they differ:
  \<open>img2.resize(img1.size).convert(img1.mode)\<close>.
\<close>

definition match_second :: "env \<Rightarrow> image \<Rightarrow> image \<Rightarrow> error + image" where
  "match_second env img1 img2 =
     (if (xsize img1, ysize img1) \<noteq> (xsize img2, ysize img2)
         \<or> mode_of (raster img1) \<noteq> mode_of (raster img2)
      then (case resize env img2 (xsize img1, ysize img1) of
              Inl e \<Rightarrow> Inl e
            | Inr r \<Rightarrow> Inr (convert (mode_of (raster img1)) r))
      else Inr img2)"


text \<open>The body of the \<open>try\<close> of \<open>calculate_similarity_score\<close>.\<close>

definition similarity_body :: "env \<Rightarrow> (path \<rightharpoonup> dfile) \<Rightarrow> path \<Rightarrow> path \<Rightarrow> error + int" where
  "similarity_body env fs img_path1 img_path2 =
     (case Image_open fs img_path1 of
        Inl e \<Rightarrow> Inl e
      | Inr img1 \<Rightarrow>
     (case Image_open fs img_path2 of
        Inl e \<Rightarrow> Inl e
      | Inr img2 \<Rightarrow>
     (case match_second env img1 img2 of
        Inl e \<Rightarrow> Inl e
      | Inr img2' \<Rightarrow>
     (case difference img1 img2' of
        Inl e \<Rightarrow> Inl e
      | Inr diff \<Rightarrow>
          (let diff_arr = np_array (convert ModeL diff);
               non_zero_pixels = count_nonzero diff_arr;
               total_pixels = shape0 diff_arr * shape1 diff_arr
           in Inr (int total_pixels - int non_zero_pixels))))))"

definition calculate_similarity_score :: "env \<Rightarrow> (path \<rightharpoonup> dfile) \<Rightarrow> path \<Rightarrow> path \<Rightarrow> int" where
  "calculate_similarity_score env fs img_path1 img_path2 =
     (case similarity_body env fs img_path1 img_path2 of
        Inl e \<Rightarrow> - 1
      | Inr score \<Rightarrow> score)"

section \<open>The disjoint-set structure\<close>

text \<open>
  \<open>self.parent\<close> is a dictionary from items to items. \<open>find\<close> is recursive and
  compresses the path on the way back; a missing item raises KeyError and a chain that
  never reaches a fixed point exhausts the recursion: both are the value None. Python's
  bound on the recursion depth is not modelled.
\<close>

type_synonym parent = "nat \<rightharpoonup> nat"

definition dsu_init :: "nat list \<Rightarrow> parent" where
  "dsu_init items = map_of (map (\<lambda>item. (item, item)) items)"

partial_function (option) dsu_find :: "parent \<Rightarrow> nat \<Rightarrow> (parent \<times> nat) option" where
  "dsu_find parent item =
     (case parent item of
        None \<Rightarrow> None
      | Some p \<Rightarrow>
          if p = item then Some (parent, item)
          else Option.bind (dsu_find parent p)
                 (\<lambda>(parent', r). Some (parent'(item \<mapsto> r), r)))"

definition dsu_union :: "parent \<Rightarrow> nat \<Rightarrow> nat \<Rightarrow> (parent \<times> bool) option" where
  "dsu_union parent item1 item2 =
     Option.bind (dsu_find parent item1) (\<lambda>(parent1, root1).
     Option.bind (dsu_find parent1 item2) (\<lambda>(parent2, root2).
       if root1 \<noteq> root2 then Some (parent2(root2 \<mapsto> root1), True)
       else Some (parent2, False)))"

text \<open>A sequence of calls on one structure; the results of the calls are dropped.\<close>

datatype dsu_op = Find nat | Union nat nat



text \<open>
  The representative of an item, as a relation: follow the parent entries up to an item
  that is its own parent.
\<close>

inductive rep :: "parent \<Rightarrow> nat \<Rightarrow> nat \<Rightarrow> bool" where
  rep_root: "parent x = Some x \<Longrightarrow> rep parent x x"
| rep_step: "parent x = Some y \<Longrightarrow> y \<noteq> x \<Longrightarrow> rep parent y r \<Longrightarrow> rep parent x r"

definition dsu_inv :: "parent \<Rightarrow> bool" where
  "dsu_inv parent = (\<forall>x \<in> dom parent. \<exists>r. rep parent x r)"


section \<open>The spanning forest\<close>

text \<open>
  \<open>adjacency_list\<close> is a dictionary from a frame id to the list of its neighbours, with
  the empty list for a missing key. A frame id is the frame's index in the sorted list of
  paths (the program writes it as a decimal string).
\<close>

type_synonym adjacency = "(nat \<times> nat list) list"

fun dict_set :: "'k \<Rightarrow> 'v \<Rightarrow> ('k \<times> 'v) list \<Rightarrow> ('k \<times> 'v) list" where
  "dict_set k v [] = [(k, v)]"
| "dict_set k v (p # ps) = (if fst p = k then (k, v) # ps else p # dict_set k v ps)"

definition adj_get :: "adjacency \<Rightarrow> nat \<Rightarrow> nat list" where
  "adj_get al u = (case map_of al u of None \<Rightarrow> [] | Some vs \<Rightarrow> vs)"

definition adj_append :: "adjacency \<Rightarrow> nat \<Rightarrow> nat \<Rightarrow> adjacency" where
  "adj_append al u v = dict_set u (adj_get al u @ [v]) al"

type_synonym scored = "int \<times> nat \<times> nat"

fun add_edges :: "parent \<Rightarrow> adjacency \<Rightarrow> scored list \<Rightarrow> (parent \<times> adjacency) option" where
  "add_edges dsu al [] = Some (dsu, al)"
| "add_edges dsu al ((score, u_id, v_id) # rest) =
     (case dsu_union dsu u_id v_id of
        None \<Rightarrow> None
      | Some (dsu', True) \<Rightarrow> add_edges dsu' (adj_append (adj_append al u_id v_id) v_id u_id) rest
      | Some (dsu', False) \<Rightarrow> add_edges dsu' al rest)"

definition sort_scores :: "scored list \<Rightarrow> scored list" where
  "sort_scores all_scores = sort_key (\<lambda>x. - fst x) all_scores"

definition spanning_forest :: "nat \<Rightarrow> scored list \<Rightarrow> (parent \<times> adjacency) option" where
  "spanning_forest n all_scores = add_edges (dsu_init [0..<n]) [] (sort_scores all_scores)"

text \<open>
  The graph an adjacency dictionary stands for, the similarity graph of a list of scored
  pairs (both taken in both directions), paths, and connected components: a path is a
  non-empty list of distinct frames in which each frame is adjacent to the next.
\<close>

definition edges_of :: "adjacency \<Rightarrow> (nat \<times> nat) set" where
  "edges_of al = {(u, v). v \<in> set (adj_get al u)}"

definition scored_edges :: "scored list \<Rightarrow> (nat \<times> nat) set" where
  "scored_edges all_scores =
     {(u, v). \<exists>s. (s, u, v) \<in> set all_scores \<or> (s, v, u) \<in> set all_scores}"

definition path_in :: "(nat \<times> nat) set \<Rightarrow> nat list \<Rightarrow> bool" where
  "path_in E xs = (xs \<noteq> [] \<and> distinct xs \<and> successively (\<lambda>a b. (a, b) \<in> E) xs)"

definition components :: "nat \<Rightarrow> (nat \<times> nat) set \<Rightarrow> nat set set" where
  "components n E = {0..<n} // {(x, y). x < n \<and> y < n \<and> (x, y) \<in> E\<^sup>*}"

definition forest_edges :: "adjacency \<Rightarrow> (nat \<times> nat) set" where
  "forest_edges al = {(u, v). u < v \<and> v \<in> set (adj_get al u)}"

text \<open>
  What the loop over the sorted scores keeps true: the structure is a forest over the
  frame ids, the adjacency is symmetric and over frame ids, and two frames are in the same
  set exactly when the adjacency connects them.
\<close>

definition same_set :: "parent \<Rightarrow> nat \<Rightarrow> nat \<Rightarrow> bool" where
  "same_set p x y = (\<exists>r. rep p x r \<and> rep p y r)"

definition forest_inv :: "nat \<Rightarrow> parent \<Rightarrow> adjacency \<Rightarrow> bool" where
  "forest_inv n p al =
     (dsu_inv p \<and> dom p = {0..<n} \<and> sym (edges_of al) \<and>
      edges_of al \<subseteq> {0..<n} \<times> {0..<n} \<and>
      (\<forall>x y. x < n \<and> y < n \<longrightarrow> (same_set p x y \<longleftrightarrow> (x, y) \<in> (edges_of al)\<^sup>*)))"

text \<open>
  No cycle: the only path between the two ends of an edge is the edge itself.
\<close>

definition tree_edges :: "(nat \<times> nat) set \<Rightarrow> bool" where
  "tree_edges E =
     (\<forall>a b xs. (a, b) \<in> E \<and> path_in E xs \<and> hd xs = a \<and> last xs = b \<longrightarrow> xs = [a, b])"

text \<open>
  The scored pairs of a run: \<open>combinations\<close> gives every pair once, smaller id first, and
  both ids are ids of frames.
\<close>

definition valid_scores :: "nat \<Rightarrow> scored list \<Rightarrow> bool" where
  "valid_scores n all_scores =
     (distinct (map snd all_scores) \<and>
      list_all (\<lambda>(s, u, v). u < v \<and> v < n) all_scores)"

section \<open>The dependency graph builder\<close>

text \<open>
  The two breadth-first traversals of \<open>main\<close>. The sets \<open>component_visited_ids\<close> and
  \<open>visited_ids\<close> are kept as the lists of their elements in insertion order: the program
  only tests membership, and the order of \<open>visited_ids\<close> is the order of discovery.
  \<open>dependencies_by_id\<close> is a dictionary, kept in insertion order.
\<close>

definition targets :: "adjacency \<Rightarrow> nat set" where
  "targets al = (\<Union>(u, vs) \<in> set al. set vs)"

fun scan_neighbors :: "nat list \<Rightarrow> nat list \<times> nat list \<Rightarrow> nat list \<times> nat list" where
  "scan_neighbors [] st = st"
| "scan_neighbors (neighbor_id # ns) (q, seen) =
     (if neighbor_id \<notin> set seen
      then scan_neighbors ns (q @ [neighbor_id], seen @ [neighbor_id])
      else scan_neighbors ns (q, seen))"

fun scan_children ::
  "nat \<Rightarrow> nat list \<Rightarrow> nat list \<times> nat list \<times> (nat \<times> nat) list
     \<Rightarrow> nat list \<times> nat list \<times> (nat \<times> nat) list" where
  "scan_children parent_id [] st = st"
| "scan_children parent_id (child_id # cs) (q, visited_ids, deps) =
     (if child_id \<notin> set visited_ids
      then scan_children parent_id cs
             (q @ [child_id], visited_ids @ [child_id], dict_set child_id parent_id deps)
      else scan_children parent_id cs (q, visited_ids, deps))"

lemma finite_targets: "finite (targets al)"
  by (auto simp: targets_def)

lemma adj_get_targets: "set (adj_get al u) \<subseteq> targets al"
proof (cases "map_of al u")
  case None
  then show ?thesis by (simp add: adj_get_def)
next
  case (Some vs)
  then have "(u, vs) \<in> set al" by (rule map_of_SomeD)
  with Some show ?thesis by (auto simp: adj_get_def targets_def)
qed

lemma card_diff_new:
  assumes "finite T" "n \<in> T" "n \<notin> S"
  shows "Suc (card (T - insert n S)) = card (T - S)"
proof -
  have "T - S = insert n (T - insert n S)" using assms by auto
  moreover have "n \<notin> T - insert n S" by simp
  ultimately show ?thesis using assms(1) by (metis card_insert_disjoint finite_Diff)
qed

lemma scan_neighbors_measure:
  "finite T \<Longrightarrow> set ns \<subseteq> T \<Longrightarrow> scan_neighbors ns (q, seen) = (q', seen') \<Longrightarrow>
   2 * card (T - set seen') + length q' \<le> 2 * card (T - set seen) + length q"
proof (induction ns arbitrary: q seen)
  case Nil
  then show ?case by simp
next
  case (Cons n ns)
  show ?case
  proof (cases "n \<in> set seen")
    case True
    with Cons show ?thesis by simp
  next
    case False
    with Cons.prems have "scan_neighbors ns (q @ [n], seen @ [n]) = (q', seen')" by simp
    from Cons.IH[OF Cons.prems(1) _ this] Cons.prems(2)
    have "2 * card (T - set seen') + length q'
            \<le> 2 * card (T - set (seen @ [n])) + length (q @ [n])"
      by simp
    moreover have "Suc (card (T - insert n (set seen))) = card (T - set seen)"
      using card_diff_new[OF Cons.prems(1), of n "set seen"] Cons.prems(2) False by simp
    ultimately show ?thesis by simp
  qed
qed

lemma scan_children_measure:
  "finite T \<Longrightarrow> set cs \<subseteq> T \<Longrightarrow> scan_children p cs (q, vis, deps) = (q', vis', deps') \<Longrightarrow>
   2 * card (T - set vis') + length q' \<le> 2 * card (T - set vis) + length q"
proof (induction cs arbitrary: q vis deps)
  case Nil
  then show ?case by simp
next
  case (Cons c cs)
  show ?case
  proof (cases "c \<in> set vis")
    case True
    with Cons show ?thesis by simp
  next
    case False
    with Cons.prems
    have "scan_children p cs (q @ [c], vis @ [c], dict_set c p deps) = (q', vis', deps')"
      by simp
    from Cons.IH[OF Cons.prems(1) _ this] Cons.prems(2)
    have "2 * card (T - set vis') + length q'
            \<le> 2 * card (T - set (vis @ [c])) + length (q @ [c])"
      by simp
    moreover have "Suc (card (T - insert c (set vis))) = card (T - set vis)"
      using card_diff_new[OF Cons.prems(1), of c "set vis"] Cons.prems(2) False by simp
    ultimately show ?thesis by simp
  qed
qed

text \<open>The first traversal: the nodes of the component of the start, in visiting order.\<close>

function component_nodes ::
  "adjacency \<Rightarrow> nat list \<Rightarrow> nat list \<Rightarrow> nat list \<Rightarrow> nat list" where
  "component_nodes al [] seen component_node_ids = component_node_ids"
| "component_nodes al (node_id # q) seen component_node_ids =
     (case scan_neighbors (adj_get al node_id) (q, seen) of
        (q', seen') \<Rightarrow> component_nodes al q' seen' (component_node_ids @ [node_id]))"
  by pat_completeness auto
termination
  apply (relation
      "measure (\<lambda>(al, q, seen, comp). 2 * card (targets al - set seen) + length q)")
   apply simp
  subgoal for al node_id q seen comp x y
    using scan_neighbors_measure[OF finite_targets adj_get_targets, of al node_id q seen x y]
    by simp
  done

text \<open>The second traversal: every newly visited node gets the node it was reached from.\<close>

function assign_parents ::
  "adjacency \<Rightarrow> nat list \<Rightarrow> nat list \<Rightarrow> (nat \<times> nat) list
     \<Rightarrow> nat list \<times> (nat \<times> nat) list" where
  "assign_parents al [] visited_ids deps = (visited_ids, deps)"
| "assign_parents al (parent_id # q) visited_ids deps =
     (case scan_children parent_id (adj_get al parent_id) (q, visited_ids, deps) of
        (q', visited_ids', deps') \<Rightarrow> assign_parents al q' visited_ids' deps')"
  by pat_completeness auto
termination
  apply (relation
      "measure (\<lambda>(al, q, vis, deps). 2 * card (targets al - set vis) + length q)")
   apply simp
  subgoal premises prems for al parent_id q vis deps x y xa ya
  proof -
    from prems
    have "scan_children parent_id (adj_get al parent_id) (q, vis, deps) = (x, xa, ya)"
      by simp
    from scan_children_measure[OF finite_targets adj_get_targets this]
    show ?thesis by simp
  qed
  done

text \<open>
  Python's \<open>min(xs, key=f)\<close>: the first element with the least key; ValueError (None) on
  an empty sequence.
\<close>

fun py_min :: "('a \<Rightarrow> nat) \<Rightarrow> 'a list \<Rightarrow> 'a option" where
  "py_min key [] = None"
| "py_min key (x # xs) = Some (foldl (\<lambda>m y. if key y < key m then y else m) x xs)"

text \<open>
  The loop over the frame ids. The state is \<open>root_image_ids\<close>, \<open>dependencies_by_id\<close> and
  \<open>visited_ids\<close>; \<open>size_of\<close> is the byte size of a frame's source file.
\<close>

fun build_dependencies ::
  "adjacency \<Rightarrow> (nat \<Rightarrow> nat) \<Rightarrow> nat list
     \<Rightarrow> nat list \<times> (nat \<times> nat) list \<times> nat list
     \<Rightarrow> (nat list \<times> (nat \<times> nat) list \<times> nat list) option" where
  "build_dependencies al size_of [] st = Some st"
| "build_dependencies al size_of (image_id # ids) (root_image_ids, deps, visited_ids) =
     (if image_id \<notin> set visited_ids then
        (case py_min size_of (component_nodes al [image_id] [image_id] []) of
           None \<Rightarrow> None
         | Some optimal_root_id \<Rightarrow>
             (case assign_parents al [optimal_root_id] (visited_ids @ [optimal_root_id]) deps of
                (visited_ids', deps') \<Rightarrow>
                  build_dependencies al size_of ids
                    (root_image_ids @ [optimal_root_id], deps', visited_ids')))
      else build_dependencies al size_of ids (root_image_ids, deps, visited_ids))"

text \<open>
  The order of discovery: the position of a frame in \<open>visited_ids\<close>, and one frame being
  discovered before another.
\<close>

definition position :: "nat list \<Rightarrow> nat \<Rightarrow> nat" where
  "position xs x = length (takeWhile (\<lambda>y. y \<noteq> x) xs)"

definition discovered_before :: "nat list \<Rightarrow> nat \<Rightarrow> nat \<Rightarrow> bool" where
  "discovered_before visited_ids a b =
     (a \<in> set visited_ids \<and> b \<in> set visited_ids
      \<and> position visited_ids a < position visited_ids b)"

section \<open>The pipeline\<close>

text \<open>
  \<open>process_image\<close>: every exception inside the \<open>try\<close> ends in \<open>return False\<close>. The steps
  that can raise are, in order: creating the directory of the destination, opening the
  current and the base image, the image operations, the PNG optimiser, opening the
  destination for writing, and the write itself. Only the last one leaves something
  behind: the destination exists by then.
\<close>

definition process_image ::
  "env \<Rightarrow> (path \<rightharpoonup> dfile) \<Rightarrow> path \<Rightarrow> path \<Rightarrow> path \<Rightarrow> (path \<rightharpoonup> dfile) \<times> bool" where
  "process_image env fs current_img_path base_img_path output_path =
     (if mkdir_fails env output_path then (fs, False)
      else case Image_open fs current_img_path of
        Inl e \<Rightarrow> (fs, False)
      | Inr img_current \<Rightarrow>
     (case Image_open fs base_img_path of
        Inl e \<Rightarrow> (fs, False)
      | Inr img_base \<Rightarrow>
     (case sanitized_image img_current img_base of
        Inl e \<Rightarrow> (fs, False)
      | Inr rgba \<Rightarrow>
     (case create_optimized_png env rgba of
        Inl e \<Rightarrow> (fs, False)
      | Inr optimized \<Rightarrow>
          if open_wb_fails env output_path then (fs, False)
          else (case write_fails env output_path of
                  Some left \<Rightarrow> (fs(output_path \<mapsto> left), False)
                | None \<Rightarrow> (fs(output_path \<mapsto> optimized), True))))))"

text \<open>\<open>itertools.combinations(xs, 2)\<close>.\<close>

fun combinations2 :: "'a list \<Rightarrow> ('a \<times> 'a) list" where
  "combinations2 [] = []"
| "combinations2 (x # xs) = map (Pair x) xs @ combinations2 xs"

text \<open>
  The manifest: the paths by frame id, the sorted root ids and the dependency dictionary
  (written with sorted keys, so as a map). The archive holds the manifest and every file of
  the temporary directory under its relative path.
\<close>

record manifest =
  image_map :: "string list"
  root_images :: "nat list"
  dependencies :: "nat \<rightharpoonup> nat"

record archive =
  manifest_file :: manifest
  entries :: "string \<rightharpoonup> dfile"

datatype outcome = NotADirectory | TooFewImages | Aborted | Completed

text \<open>
  What a run did: how it ended, the pairs it scored, the manifest it wrote, the roots it
  copied, the encodings it ran with their results, and the archive it created.
\<close>

record run_result =
  outcome :: outcome
  scored_pairs :: "(nat \<times> nat) list"
  manifest_written :: "manifest option"
  copied_roots :: "nat list"
  encoded :: "(nat \<times> bool) list"
  created_archive :: "archive option"

definition source_fs :: "string \<Rightarrow> (string \<times> dfile) list \<Rightarrow> (path \<rightharpoonup> dfile)" where
  "source_fs input_dir source = map_of (map (\<lambda>(rel, f). ((input_dir, rel), f)) source)"

text \<open>
  Phase 1, the loop over the completed futures: a pair whose score is the sentinel is
  left out of \<open>all_scores\<close>.
\<close>

fun collect_scores ::
  "env \<Rightarrow> (path \<rightharpoonup> dfile) \<Rightarrow> string \<Rightarrow> string list \<Rightarrow> (nat \<times> nat) list \<Rightarrow> scored list" where
  "collect_scores env fs input_dir paths [] = []"
| "collect_scores env fs input_dir paths ((i, j) # rest) =
     (let score = calculate_similarity_score env fs (input_dir, paths ! i) (input_dir, paths ! j)
      in if score \<noteq> - 1 then (score, i, j) # collect_scores env fs input_dir paths rest
         else collect_scores env fs input_dir paths rest)"

text \<open>Phase 2: the roots are copied, then every child is encoded against its parent.\<close>

fun copy_roots ::
  "(path \<rightharpoonup> dfile) \<Rightarrow> string \<Rightarrow> string \<Rightarrow> string list \<Rightarrow> nat list \<Rightarrow> (path \<rightharpoonup> dfile) option" where
  "copy_roots fs input_dir output_dir paths [] = Some fs"
| "copy_roots fs input_dir output_dir paths (root_id # roots) =
     (case fs (input_dir, paths ! root_id) of
        None \<Rightarrow> None
      | Some f \<Rightarrow>
          copy_roots (fs((output_dir, paths ! root_id) \<mapsto> f)) input_dir output_dir paths roots)"

fun run_jobs ::
  "env \<Rightarrow> string \<Rightarrow> string \<Rightarrow> string list \<Rightarrow> (path \<rightharpoonup> dfile) \<Rightarrow> (nat \<times> nat) list
     \<Rightarrow> (path \<rightharpoonup> dfile) \<times> (nat \<times> bool) list" where
  "run_jobs env input_dir output_dir paths fs [] = (fs, [])"
| "run_jobs env input_dir output_dir paths fs ((cid, pid) # jobs) =
     (case process_image env fs (input_dir, paths ! cid) (input_dir, paths ! pid)
             (output_dir, paths ! cid) of
        (fs', ok) \<Rightarrow>
          (case run_jobs env input_dir output_dir paths fs' jobs of
             (fs'', results) \<Rightarrow> (fs'', (cid, ok) # results)))"

definition stopped :: "outcome \<Rightarrow> (nat \<times> nat) list \<Rightarrow> run_result" where
  "stopped out pairs =
     \<lparr>outcome = out, scored_pairs = pairs, manifest_written = None, copied_roots = [],
      encoded = [], created_archive = None\<rparr>"

text \<open>
  \<open>main\<close>, from the scan on. \<open>source\<close> is the sorted list of the discovered images, each
  with its file; a frame id is an index into it. The temporary directory is new, so the
  file system of the run holds the source files and nothing else. The writes \<open>main\<close> does
  itself (manifest, root copies, archive) are taken to succeed when their source exists.
\<close>

definition main :: "env \<Rightarrow> string \<Rightarrow> bool \<Rightarrow> string \<Rightarrow> (string \<times> dfile) list \<Rightarrow> run_result" where
  "main env input_dir is_dir output_dir source =
     (if \<not> is_dir then stopped NotADirectory []
      else
        let image_paths_rel = map fst source;
            n = length image_paths_rel
        in if n < 2 then stopped TooFewImages []
        else
          let fs = source_fs input_dir source;
              all_pairs = combinations2 [0..<n];
              completed = phase1_order env all_pairs;
              all_scores = collect_scores env fs input_dir image_paths_rel completed
          in case spanning_forest n all_scores of
               None \<Rightarrow> stopped Aborted completed
             | Some (dsu, adjacency_list) \<Rightarrow>
          (case build_dependencies adjacency_list (\<lambda>nid. st_size (snd (source ! nid)))
                  [0..<n] ([], [], []) of
               None \<Rightarrow> stopped Aborted completed
             | Some (root_image_ids, dependencies_by_id, visited_ids) \<Rightarrow>
          (let map_data = \<lparr>image_map = image_paths_rel, root_images = sort root_image_ids,
                            dependencies = map_of dependencies_by_id\<rparr>
           in case copy_roots fs input_dir output_dir image_paths_rel root_image_ids of
                None \<Rightarrow> (stopped Aborted completed)\<lparr>manifest_written := Some map_data\<rparr>
              | Some fs1 \<Rightarrow>
                  (case run_jobs env input_dir output_dir image_paths_rel fs1
                          (phase2_order env dependencies_by_id) of
                     (fs2, results) \<Rightarrow>
                       \<lparr>outcome = Completed, scored_pairs = completed,
                        manifest_written = Some map_data, copied_roots = root_image_ids,
                        encoded = results,
                        created_archive =
                          Some \<lparr>manifest_file = map_data,
                                entries = (\<lambda>rel. fs2 (output_dir, rel))\<rparr>\<rparr>))))"

text \<open>
  An environment without faults, for examples: resizing keeps the pixels, the optimiser
  stores the image as it is, and both pools complete their tasks in the order of
  submission.
\<close>

definition quiet_env :: env where
  "quiet_env =
     \<lparr>resize = (\<lambda>img sz. Inr (img\<lparr>xsize := fst sz, ysize := snd sz\<rparr>)),
      create_optimized_png = (\<lambda>img. Inr (Picture 1 img)),
      mkdir_fails = (\<lambda>p. False),
      open_wb_fails = (\<lambda>p. False),
      write_fails = (\<lambda>p. None),
      phase1_order = (\<lambda>xs. xs),
      phase2_order = (\<lambda>xs. xs)\<rparr>"

section \<open>Properties of the diff encoder\<close>

lemma rgb_at_convert_RGB: "rgb_at (convert ModeRGB img) x y = rgb_at img x y"
  by (cases "raster img") (auto simp: convert_def rgb_at_def split: prod.splits)

text \<open>
  When the current image fits inside the base image, the encoder returns an image of the
  current image's size with the current image's colours; its alpha at a pixel is the mask
  value of the greyscale of the absolute difference of the two colours.
\<close>

lemma sanitized_image_pixels:
  assumes "xsize cur \<le> xsize base" "ysize cur \<le> ysize base"
  shows "\<exists>out. sanitized_image cur base = Inr out
     \<and> xsize out = xsize cur \<and> ysize out = ysize cur
     \<and> (\<forall>x y. rgb_at out x y = rgb_at cur x y \<and>
          alpha_at out x y =
            (case (rgb_at cur x y, rgb_at base x y) of
               ((r, g, b), (r', g', b')) \<Rightarrow>
                 mask_value (rgb2l (absdiff r r') (absdiff g g') (absdiff b b'))))"
  using assms
  by (cases "raster cur"; cases "raster base")
     (auto simp: sanitized_image_def convert_def difference_def putalpha_def point_def
        rgb_at_def alpha_at_def Let_def min_def split: prod.splits)

text \<open>
  C1 (the code departs from the claim). The claim: the alpha of the encoded image is
  transparent exactly where the colours of child and parent are equal, and opaque exactly
  where they differ in any channel. The code thresholds the greyscale of the difference,
  and the greyscale of a small difference is 0: for a child pixel (0, 0, 1) over a parent
  pixel (0, 0, 0) the encoder succeeds and the alpha is 0, although the colours differ.
\<close>

theorem sanitized_image_small_difference_transparent:
  "\<exists>out. sanitized_image (solid 1 1 (0, 0, 1)) (solid 1 1 (0, 0, 0)) = Inr out
     \<and> xsize out = 1 \<and> ysize out = 1
     \<and> alpha_at out 0 0 = 0
     \<and> rgb_at (solid 1 1 (0, 0, 1)) 0 0 \<noteq> rgb_at (solid 1 1 (0, 0, 0)) 0 0"
  by (simp add: sanitized_image_def solid_def convert_def difference_def putalpha_def
      point_def rgb_at_def alpha_at_def Let_def mask_value_def rgb2l_def absdiff_def)

section \<open>Properties of the disjoint-set structure\<close>

lemma rep_fun: "rep p x r \<Longrightarrow> rep p x r' \<Longrightarrow> r = r'"
proof (induction arbitrary: r' rule: rep.induct)
  case (rep_root parent x)
  from rep_root.prems rep_root.hyps show ?case by (cases rule: rep.cases) auto
next
  case (rep_step parent x y r)
  from rep_step.prems rep_step.hyps(1,2) have "rep parent y r'"
    by (cases rule: rep.cases) auto
  then show ?case by (rule rep_step.IH)
qed

lemma rep_is_root: "rep p x r \<Longrightarrow> p r = Some r"
  by (induction rule: rep.induct) auto


lemma rep_of_root: "p r = Some r \<Longrightarrow> rep p r s \<longleftrightarrow> s = r"
  using rep_fun[of p r s r] rep_root[of p r] by auto

lemma rep_compress_fwd:
  "rep p z s \<Longrightarrow> rep p x r \<Longrightarrow> rep (p(x \<mapsto> r)) z s"
proof (induction rule: rep.induct)
  case (rep_root p z)
  show ?case
  proof (cases "z = x")
    case True
    with rep_root have "r = x" using rep_of_root[of p x r] by simp
    with True rep_root show ?thesis by (simp add: rep.rep_root)
  next
    case False
    with rep_root show ?thesis by (simp add: rep.rep_root)
  qed
next
  case (rep_step p z y s)
  have r_root: "p r = Some r" using rep_step.prems by (rule rep_is_root)
  show ?case
  proof (cases "z = x")
    case True
    have "rep p z s" using rep_step.hyps by (auto intro: rep.rep_step)
    with True rep_step.prems have sr: "s = r" using rep_fun[of p x s r] by simp
    have "r \<noteq> x"
    proof
      assume "r = x"
      with r_root rep_step.hyps True show False by simp
    qed
    then have rr: "rep (p(x \<mapsto> r)) r r" using r_root by (simp add: rep.rep_root)
    have "(p(x \<mapsto> r)) x = Some r" by simp
    from rep.rep_step[OF this \<open>r \<noteq> x\<close> rr] True sr show ?thesis
      by (simp add: fun_upd_def)
  next
    case False
    from False rep_step.hyps have "(p(x \<mapsto> r)) z = Some y" by simp
    from rep.rep_step[OF this rep_step.hyps(2) rep_step.IH[OF rep_step.prems]]
    show ?thesis by (simp add: fun_upd_def)
  qed
qed

lemma rep_compress_bwd:
  "rep q z s \<Longrightarrow> q = p(x \<mapsto> r) \<Longrightarrow> rep p x r \<Longrightarrow> rep p z s"
proof (induction rule: rep.induct)
  case (rep_root q z)
  have r_root: "p r = Some r" using rep_root.prems(2) by (rule rep_is_root)
  show ?case
  proof (cases "z = x")
    case True
    with rep_root have "r = x" by simp
    with True r_root show ?thesis by (simp add: rep.rep_root)
  next
    case False
    with rep_root show ?thesis by (simp add: rep.rep_root)
  qed
next
  case (rep_step q z y s)
  have r_root: "p r = Some r" using rep_step.prems(2) by (rule rep_is_root)
  have ys: "rep p y s" using rep_step.IH rep_step.prems by simp
  show ?case
  proof (cases "z = x")
    case True
    with rep_step have "y = r" by simp
    with ys r_root have "s = r" using rep_of_root[of p r s] by simp
    with True rep_step.prems show ?thesis by simp
  next
    case False
    with rep_step have "p z = Some y" by simp
    from rep.rep_step[OF this rep_step.hyps(2) ys] show ?thesis .
  qed
qed

lemma rep_compress: "rep p x r \<Longrightarrow> rep (p(x \<mapsto> r)) z s \<longleftrightarrow> rep p z s"
  using rep_compress_fwd[of p z s x r] rep_compress_bwd[of "p(x \<mapsto> r)" z s p x r] by auto

lemma dsu_find_rep:
  "rep p x r \<Longrightarrow>
   \<exists>p'. dsu_find p x = Some (p', r) \<and> dom p' = dom p \<and> (\<forall>z s. rep p' z s \<longleftrightarrow> rep p z s)"
proof (induction rule: rep.induct)
  case (rep_root p x)
  then show ?case by (subst dsu_find.simps) simp
next
  case (rep_step p x y r)
  from rep_step.IH obtain p' where p': "dsu_find p y = Some (p', r)" "dom p' = dom p"
    "\<forall>z s. rep p' z s \<longleftrightarrow> rep p z s" by (elim exE conjE)
  have xr: "rep p x r" using rep_step.hyps by (auto intro: rep.rep_step)
  then have xr': "rep p' x r" using p'(3) by simp
  have "dsu_find p x = Some (p'(x \<mapsto> r), r)"
    using rep_step.hyps p'(1) by (subst dsu_find.simps) simp
  moreover have "dom (p'(x \<mapsto> r)) = dom p" using p'(2) rep_step.hyps by auto
  moreover have "\<forall>z s. rep (p'(x \<mapsto> r)) z s \<longleftrightarrow> rep p z s"
    using rep_compress[OF xr'] p'(3) by simp
  ultimately show ?case by (intro exI[of _ "p'(x \<mapsto> r)"] conjI)
qed


lemma rep_link_fwd:
  "rep p z s0 \<Longrightarrow> p a = Some a \<Longrightarrow> p b = Some b \<Longrightarrow> a \<noteq> b \<Longrightarrow>
   rep (p(b \<mapsto> a)) z (if s0 = b then a else s0)"
proof (induction rule: rep.induct)
  case (rep_root p z)
  have aa: "rep (p(b \<mapsto> a)) a a" using rep_root.prems by (simp add: rep.rep_root)
  show ?case
  proof (cases "z = b")
    case True
    have "(p(b \<mapsto> a)) b = Some a" by simp
    from rep.rep_step[OF this rep_root.prems(3) aa] True show ?thesis
      by (simp add: fun_upd_def)
  next
    case False
    with rep_root show ?thesis by (simp add: rep.rep_root)
  qed
next
  case (rep_step p z y s0)
  have "z \<noteq> b" using rep_step.hyps rep_step.prems by auto
  then have "(p(b \<mapsto> a)) z = Some y" using rep_step.hyps by simp
  from rep.rep_step[OF this rep_step.hyps(2) rep_step.IH[OF rep_step.prems]]
  show ?case by (simp add: fun_upd_def)
qed

lemma rep_link_bwd:
  "rep q z s \<Longrightarrow> q = p(b \<mapsto> a) \<Longrightarrow> p a = Some a \<Longrightarrow> p b = Some b \<Longrightarrow> a \<noteq> b \<Longrightarrow>
   \<exists>s0. rep p z s0 \<and> s = (if s0 = b then a else s0)"
proof (induction rule: rep.induct)
  case (rep_root q z)
  then have "z \<noteq> b" by auto
  with rep_root have "p z = Some z" by simp
  then have "rep p z z" by (rule rep.rep_root)
  with \<open>z \<noteq> b\<close> show ?case by (intro exI[of _ z]) simp
next
  case (rep_step q z y s)
  from rep_step.IH[OF rep_step.prems] obtain s0 where
    s0: "rep p y s0" "s = (if s0 = b then a else s0)" by (elim exE conjE)
  show ?case
  proof (cases "z = b")
    case True
    with rep_step have "y = a" by simp
    with s0(1) rep_step.prems(2) have "s0 = a" using rep_of_root[of p a s0] by simp
    with s0(2) rep_step.prems(4) have "s = a" by simp
    moreover have "rep p b b" using rep_step.prems(3) by (rule rep.rep_root)
    ultimately show ?thesis using True by (intro exI[of _ b]) simp
  next
    case False
    with rep_step have "p z = Some y" by simp
    from rep.rep_step[OF this rep_step.hyps(2) s0(1)] s0(2) show ?thesis
      by (intro exI[of _ s0]) simp
  qed
qed

lemma rep_link:
  assumes "p a = Some a" "p b = Some b" "a \<noteq> b"
  shows "rep (p(b \<mapsto> a)) z s \<longleftrightarrow> (\<exists>s0. rep p z s0 \<and> s = (if s0 = b then a else s0))"
proof
  assume "rep (p(b \<mapsto> a)) z s"
  from rep_link_bwd[OF this refl assms]
  show "\<exists>s0. rep p z s0 \<and> s = (if s0 = b then a else s0)" .
next
  assume "\<exists>s0. rep p z s0 \<and> s = (if s0 = b then a else s0)"
  then obtain s0 where s0: "rep p z s0" "s = (if s0 = b then a else s0)"
    by (elim exE conjE)
  from rep_link_fwd[OF s0(1) assms] s0(2) show "rep (p(b \<mapsto> a)) z s" by simp
qed

lemma dsu_union_rep:
  assumes x: "rep p x rx" and y: "rep p y ry"
  shows "\<exists>p'. dsu_union p x y = Some (p', rx \<noteq> ry) \<and> dom p' = dom p \<and>
     (\<forall>z s. rep p' z s \<longleftrightarrow>
        (\<exists>s0. rep p z s0 \<and> s = (if rx \<noteq> ry \<and> s0 = ry then rx else s0)))"
proof -
  from dsu_find_rep[OF x] obtain p1 where p1: "dsu_find p x = Some (p1, rx)"
    "dom p1 = dom p" "\<forall>z s. rep p1 z s \<longleftrightarrow> rep p z s" by (elim exE conjE)
  from y p1(3) have "rep p1 y ry" by simp
  from dsu_find_rep[OF this] obtain p2 where p2: "dsu_find p1 y = Some (p2, ry)"
    "dom p2 = dom p1" "\<forall>z s. rep p2 z s \<longleftrightarrow> rep p1 z s" by (elim exE conjE)
  have eq: "\<And>z s. rep p2 z s \<longleftrightarrow> rep p z s" using p1(3) p2(3) by simp
  show ?thesis
  proof (cases "rx = ry")
    case True
    have "dsu_union p x y = Some (p2, False)"
      using p1(1) p2(1) True by (simp add: dsu_union_def)
    with True p1(2) p2(2) eq show ?thesis by (intro exI[of _ p2]) simp
  next
    case False
    have u: "dsu_union p x y = Some (p2(ry \<mapsto> rx), True)"
      using p1(1) p2(1) False by (simp add: dsu_union_def)
    have rootx: "p2 rx = Some rx" using x eq rep_is_root[of p2 x rx] by simp
    have rooty: "p2 ry = Some ry" using y eq rep_is_root[of p2 y ry] by simp
    have "dom (p2(ry \<mapsto> rx)) = dom p" using p1(2) p2(2) rooty by auto
    moreover have "\<forall>z s. rep (p2(ry \<mapsto> rx)) z s \<longleftrightarrow>
        (\<exists>s0. rep p z s0 \<and> s = (if rx \<noteq> ry \<and> s0 = ry then rx else s0))"
      using rep_link[OF rootx rooty False] eq False by simp
    ultimately show ?thesis using u False by (intro exI[of _ "p2(ry \<mapsto> rx)"]) simp
  qed
qed

lemma dsu_init_apply: "dsu_init items x = (if x \<in> set items then Some x else None)"
  by (induction items) (auto simp: dsu_init_def)

lemma dsu_inv_init: "dsu_inv (dsu_init items)"
  unfolding dsu_inv_def
proof
  fix x assume "x \<in> dom (dsu_init items)"
  then have "dsu_init items x = Some x" by (auto simp: dsu_init_apply split: if_splits)
  then have "rep (dsu_init items) x x" by (rule rep.rep_root)
  then show "\<exists>r. rep (dsu_init items) x r" ..
qed

lemma dom_dsu_init: "dom (dsu_init items) = set items"
  by (auto simp: dsu_init_apply split: if_splits)

lemma dsu_inv_rep: "dsu_inv p \<Longrightarrow> x \<in> dom p \<Longrightarrow> \<exists>r. rep p x r"
  by (simp add: dsu_inv_def)












section \<open>Properties of the spanning forest\<close>

lemma map_of_dict_set: "map_of (dict_set k v al) = (map_of al)(k \<mapsto> v)"
  by (induction al) (auto simp: fun_eq_iff)

lemma adj_get_append:
  "adj_get (adj_append al u v) w = (if w = u then adj_get al u @ [v] else adj_get al w)"
  by (simp add: adj_get_def adj_append_def map_of_dict_set)

lemma edges_of_Nil: "edges_of [] = {}"
  by (simp add: edges_of_def adj_get_def)

lemma edges_of_add:
  "edges_of (adj_append (adj_append al u v) v u) = edges_of al \<union> {(u, v), (v, u)}"
  by (auto simp: edges_of_def adj_get_append split: if_splits)

lemma rtrancl_add_sym_edge:
  assumes "sym E"
  shows "(x, y) \<in> (E \<union> {(u, v), (v, u)})\<^sup>* \<longleftrightarrow>
     (x, y) \<in> E\<^sup>* \<or> ((x, u) \<in> E\<^sup>* \<and> (v, y) \<in> E\<^sup>*) \<or> ((x, v) \<in> E\<^sup>* \<and> (u, y) \<in> E\<^sup>*)"
proof -
  have symr: "\<And>a b. (a, b) \<in> E\<^sup>* \<Longrightarrow> (b, a) \<in> E\<^sup>*"
    using assms sym_rtrancl by (metis symD)
  have e1: "E \<union> {(u, v), (v, u)} = insert (u, v) (insert (v, u) E)" by auto
  have "(x, y) \<in> (insert (u, v) (insert (v, u) E))\<^sup>* \<longleftrightarrow>
     (x, y) \<in> (insert (v, u) E)\<^sup>* \<or> ((x, u) \<in> (insert (v, u) E)\<^sup>* \<and> (v, y) \<in> (insert (v, u) E)\<^sup>*)"
    by (subst rtrancl_insert) auto
  also have "\<dots> \<longleftrightarrow> (x, y) \<in> E\<^sup>* \<or> ((x, u) \<in> E\<^sup>* \<and> (v, y) \<in> E\<^sup>*) \<or> ((x, v) \<in> E\<^sup>* \<and> (u, y) \<in> E\<^sup>*)"
    by (auto simp: rtrancl_insert dest: symr intro: rtrancl_trans)
  finally show ?thesis by (simp add: e1)
qed


lemma roots_find_eq:
  assumes "\<forall>z s. rep p' z s \<longleftrightarrow> rep p z s"
  shows "{r. p' r = Some r} = {r. p r = Some r}"
proof -
  have "\<And>q r. q r = Some r \<longleftrightarrow> rep q r r"
    using rep_is_root rep.rep_root by blast
  with assms show ?thesis by simp
qed

lemma forest_step:
  assumes inv: "forest_inv n p al" and u: "u < n" and v: "v < n"
  shows "\<exists>p' b. dsu_union p u v = Some (p', b) \<and> (b \<longleftrightarrow> (u, v) \<notin> (edges_of al)\<^sup>*)
     \<and> forest_inv n p' (if b then adj_append (adj_append al u v) v u else al)
     \<and> card {r. p' r = Some r} + (if b then 1 else 0) = card {r. p r = Some r}"
proof -
  let ?E = "edges_of al"
  from inv have dinv: "dsu_inv p" and dom: "dom p = {0..<n}" and symE: "sym ?E"
    and sub: "?E \<subseteq> {0..<n} \<times> {0..<n}"
    and conn: "\<And>x y. x < n \<Longrightarrow> y < n \<Longrightarrow> same_set p x y \<longleftrightarrow> (x, y) \<in> ?E\<^sup>*"
    by (auto simp: forest_inv_def)
  have symr: "\<And>a b. (a, b) \<in> ?E\<^sup>* \<Longrightarrow> (b, a) \<in> ?E\<^sup>*"
    using symE sym_rtrancl by (metis symD)
  from u v dom have "u \<in> dom p" "v \<in> dom p" by auto
  from dsu_inv_rep[OF dinv this(1)] obtain ru where ru: "rep p u ru" ..
  from dsu_inv_rep[OF dinv \<open>v \<in> dom p\<close>] obtain rv where rv: "rep p v rv" ..
  from dsu_union_rep[OF ru rv] obtain p' where p': "dsu_union p u v = Some (p', ru \<noteq> rv)"
    "dom p' = dom p"
    "\<forall>z s. rep p' z s \<longleftrightarrow>
        (\<exists>s0. rep p z s0 \<and> s = (if ru \<noteq> rv \<and> s0 = rv then ru else s0))"
    by (elim exE conjE)
  have same_uv: "same_set p u v \<longleftrightarrow> ru = rv"
    using ru rv rep_fun[of p u] rep_fun[of p v] by (auto simp: same_set_def)
  then have b_iff: "ru \<noteq> rv \<longleftrightarrow> (u, v) \<notin> ?E\<^sup>*" using conn[OF u v] by simp
  have inv': "dsu_inv p'"
    unfolding dsu_inv_def
  proof
    fix z assume "z \<in> dom p'"
    with p'(2) have "z \<in> dom p" by simp
    from dsu_inv_rep[OF dinv this] obtain s0 where "rep p z s0" ..
    with p'(3) show "\<exists>s. rep p' z s" by blast
  qed
  have rep_at: "\<And>x. x < n \<Longrightarrow> \<exists>s. rep p x s"
  proof -
    fix x assume "x < n"
    with dom have "x \<in> dom p" by simp
    from dsu_inv_rep[OF dinv this] show "\<exists>s. rep p x s" .
  qed
  have rep_u: "\<And>x s. x < n \<Longrightarrow> rep p x s \<Longrightarrow> s = ru \<longleftrightarrow> (x, u) \<in> ?E\<^sup>*"
  proof -
    fix x s assume x: "x < n" and s: "rep p x s"
    have "same_set p x u \<longleftrightarrow> s = ru"
      using s ru rep_fun[of p x] rep_fun[of p u] by (auto simp: same_set_def)
    with conn[OF x u] show "s = ru \<longleftrightarrow> (x, u) \<in> ?E\<^sup>*" by simp
  qed
  have rep_v: "\<And>x s. x < n \<Longrightarrow> rep p x s \<Longrightarrow> s = rv \<longleftrightarrow> (x, v) \<in> ?E\<^sup>*"
  proof -
    fix x s assume x: "x < n" and s: "rep p x s"
    have "same_set p x v \<longleftrightarrow> s = rv"
      using s rv rep_fun[of p x] rep_fun[of p v] by (auto simp: same_set_def)
    with conn[OF x v] show "s = rv \<longleftrightarrow> (x, v) \<in> ?E\<^sup>*" by simp
  qed
  show ?thesis
  proof (cases "ru = rv")
    case True
    with p'(3) have eq: "\<forall>z s. rep p' z s \<longleftrightarrow> rep p z s" by simp
    then have "\<And>x y. same_set p' x y \<longleftrightarrow> same_set p x y" by (simp add: same_set_def)
    with inv inv' p'(2) have "forest_inv n p' al" by (simp add: forest_inv_def)
    moreover have "{r. p' r = Some r} = {r. p r = Some r}" using roots_find_eq[OF eq] .
    ultimately show ?thesis using p'(1) True b_iff
      by (intro exI[of _ p'] exI[of _ False]) simp
  next
    case False
    let ?al' = "adj_append (adj_append al u v) v u"
    have E': "edges_of ?al' = ?E \<union> {(u, v), (v, u)}" by (rule edges_of_add)
    have sym': "sym (edges_of ?al')" using symE by (auto simp: E' sym_def)
    have sub': "edges_of ?al' \<subseteq> {0..<n} \<times> {0..<n}" using sub u v by (auto simp: E')
    have conn': "\<And>x y. x < n \<Longrightarrow> y < n \<Longrightarrow>
        same_set p' x y \<longleftrightarrow> (x, y) \<in> (edges_of ?al')\<^sup>*"
    proof -
      fix x y assume x: "x < n" and y: "y < n"
      from rep_at[OF x] obtain sx where sx: "rep p x sx" ..
      from rep_at[OF y] obtain sy where sy: "rep p y sy" ..
      let ?f = "\<lambda>s0. if s0 = rv then ru else s0"
      have px: "\<And>s. rep p' x s \<longleftrightarrow> s = ?f sx"
        using p'(3) False sx rep_fun[of p x] by auto
      have py: "\<And>s. rep p' y s \<longleftrightarrow> s = ?f sy"
        using p'(3) False sy rep_fun[of p y] by auto
      have "same_set p' x y \<longleftrightarrow> ?f sx = ?f sy" by (auto simp: same_set_def px py)
      also have "\<dots> \<longleftrightarrow> sx = sy \<or> (sx = ru \<and> sy = rv) \<or> (sx = rv \<and> sy = ru)"
        by auto
      also have "sx = sy \<longleftrightarrow> (x, y) \<in> ?E\<^sup>*"
        using conn[OF x y] sx sy rep_fun[of p x] rep_fun[of p y] by (auto simp: same_set_def)
      also have "sx = ru \<longleftrightarrow> (x, u) \<in> ?E\<^sup>*" by (rule rep_u[OF x sx])
      also have "sy = rv \<longleftrightarrow> (v, y) \<in> ?E\<^sup>*" using rep_v[OF y sy] symr by blast
      also have "sx = rv \<longleftrightarrow> (x, v) \<in> ?E\<^sup>*" by (rule rep_v[OF x sx])
      also have "sy = ru \<longleftrightarrow> (u, y) \<in> ?E\<^sup>*" using rep_u[OF y sy] symr by blast
      finally show "same_set p' x y \<longleftrightarrow> (x, y) \<in> (edges_of ?al')\<^sup>*"
        unfolding E' rtrancl_add_sym_edge[OF symE] .
    qed
    have finv: "forest_inv n p' ?al'"
      using inv' p'(2) dom sym' sub' conn' by (simp add: forest_inv_def)
    have root_iff: "\<And>q r. q r = Some r \<longleftrightarrow> rep q r r"
      using rep_is_root rep.rep_root by blast
    have rootu: "p ru = Some ru" using ru by (rule rep_is_root)
    have rootv: "p rv = Some rv" using rv by (rule rep_is_root)
    have "{r. p' r = Some r} = {r. p r = Some r} - {rv}"
    proof (intro set_eqI iffI)
      fix z assume "z \<in> {r. p' r = Some r}"
      then have "rep p' z z" by (simp add: root_iff)
      with p'(3) False obtain s0 where s0: "rep p z s0" "z = (if s0 = rv then ru else s0)"
        by auto
      show "z \<in> {r. p r = Some r} - {rv}"
      proof (cases "s0 = rv")
        case True
        with s0 have "z = ru" "rep p ru rv" by simp_all
        with rootu have "rv = ru" using rep_of_root[of p ru rv] by simp
        with False show ?thesis by simp
      next
        case False
        with s0 have "rep p z z" "z \<noteq> rv" by simp_all
        then show ?thesis by (simp add: root_iff)
      qed
    next
      fix z assume "z \<in> {r. p r = Some r} - {rv}"
      then have "rep p z z" "z \<noteq> rv" by (simp_all add: root_iff)
      with p'(3) False have "rep p' z z" by auto
      then show "z \<in> {r. p' r = Some r}" by (simp add: root_iff)
    qed
    moreover have "finite {r. p r = Some r}"
    proof (rule finite_subset)
      show "{r. p r = Some r} \<subseteq> {0..<n}" using dom by auto
    qed simp
    moreover have "rv \<in> {r. p r = Some r}" using rootv by simp
    ultimately have "card {r. p' r = Some r} + 1 = card {r. p r = Some r}"
    proof -
      assume a: "{r. p' r = Some r} = {r. p r = Some r} - {rv}"
        and f: "finite {r. p r = Some r}" and m: "rv \<in> {r. p r = Some r}"
      from f m have "0 < card {r. p r = Some r}" by (auto simp: card_gt_0_iff)
      moreover from m have "card ({r. p r = Some r} - {rv}) = card {r. p r = Some r} - 1"
        by (rule card_Diff_singleton)
      ultimately show ?thesis using a by simp
    qed
    with p'(1) False b_iff finv show ?thesis
      by (intro exI[of _ p'] exI[of _ True]) simp
  qed
qed


lemma forest_edges_alt: "forest_edges al = {(a, b). (a, b) \<in> edges_of al \<and> a < b}"
  by (auto simp: forest_edges_def edges_of_def)

lemma finite_forest_edges:
  assumes "edges_of al \<subseteq> {0..<n} \<times> {0..<n}"
  shows "finite (forest_edges al)"
proof (rule finite_subset)
  show "forest_edges al \<subseteq> {0..<n} \<times> {0..<n}" using assms by (auto simp: forest_edges_alt)
qed simp

lemma card_forest_edges_add:
  assumes symE: "sym (edges_of al)" and sub: "edges_of al \<subseteq> {0..<n} \<times> {0..<n}"
    and nc: "(u, v) \<notin> (edges_of al)\<^sup>*"
  shows "card (forest_edges (adj_append (adj_append al u v) v u)) = card (forest_edges al) + 1"
proof -
  let ?E = "edges_of al"
  from nc have ne: "u \<noteq> v" by auto
  from nc have nuv: "(u, v) \<notin> ?E" by auto
  with symE have nvu: "(v, u) \<notin> ?E" by (auto dest: symD)
  let ?e = "if u < v then (u, v) else (v, u)"
  have "forest_edges (adj_append (adj_append al u v) v u) = insert ?e (forest_edges al)"
    using ne by (auto simp: forest_edges_alt edges_of_add)
  moreover have "?e \<notin> forest_edges al" using nuv nvu by (auto simp: forest_edges_alt)
  ultimately show ?thesis using finite_forest_edges[OF sub] by simp
qed

lemma scored_edges_Cons:
  "scored_edges ((s, u, v) # rest) = {(u, v), (v, u)} \<union> scored_edges rest"
  by (auto simp: scored_edges_def)

lemma add_edges_inv:
  "forest_inv n p al \<Longrightarrow> list_all (\<lambda>(s, u, v). u < n \<and> v < n) rest \<Longrightarrow>
   \<exists>p' al'. add_edges p al rest = Some (p', al') \<and> forest_inv n p' al'
     \<and> edges_of al \<subseteq> edges_of al'
     \<and> edges_of al' \<subseteq> edges_of al \<union> scored_edges rest
     \<and> scored_edges rest \<subseteq> (edges_of al')\<^sup>*
     \<and> card (forest_edges al') + card {r. p' r = Some r}
         = card (forest_edges al) + card {r. p r = Some r}"
proof (induction rest arbitrary: p al)
  case Nil
  then show ?case by (simp add: scored_edges_def)
next
  case (Cons t rest)
  obtain s u v where t: "t = (s, u, v)" by (cases t)
  with Cons.prems have u: "u < n" and v: "v < n"
    and rest: "list_all (\<lambda>(s, u, v). u < n \<and> v < n) rest" by simp_all
  let ?E = "edges_of al"
  from Cons.prems(1) have symE: "sym ?E" and sub: "?E \<subseteq> {0..<n} \<times> {0..<n}"
    by (simp_all add: forest_inv_def)
  have symr: "\<And>a b. (a, b) \<in> ?E\<^sup>* \<Longrightarrow> (b, a) \<in> ?E\<^sup>*"
    using symE sym_rtrancl by (metis symD)
  from forest_step[OF Cons.prems(1) u v] obtain p1 b where
    st: "dsu_union p u v = Some (p1, b)" "b \<longleftrightarrow> (u, v) \<notin> ?E\<^sup>*"
    "forest_inv n p1 (if b then adj_append (adj_append al u v) v u else al)"
    "card {r. p1 r = Some r} + (if b then 1 else 0) = card {r. p r = Some r}"
    by (elim exE conjE)
  let ?al1 = "if b then adj_append (adj_append al u v) v u else al"
  from Cons.IH[OF st(3) rest] obtain p' al' where
    ih: "add_edges p1 ?al1 rest = Some (p', al')" "forest_inv n p' al'"
    "edges_of ?al1 \<subseteq> edges_of al'"
    "edges_of al' \<subseteq> edges_of ?al1 \<union> scored_edges rest"
    "scored_edges rest \<subseteq> (edges_of al')\<^sup>*"
    "card (forest_edges al') + card {r. p' r = Some r}
         = card (forest_edges ?al1) + card {r. p1 r = Some r}"
    by (elim exE conjE)
  have run: "add_edges p al (t # rest) = Some (p', al')"
    using st(1) ih(1) t by (cases b) simp_all
  have sub1: "?E \<subseteq> edges_of ?al1" by (auto simp: edges_of_add)
  have sub2: "edges_of ?al1 \<subseteq> ?E \<union> {(u, v), (v, u)}" by (auto simp: edges_of_add)
  have c1: "?E \<subseteq> edges_of al'" using sub1 ih(3) by blast
  have c2: "edges_of al' \<subseteq> ?E \<union> scored_edges (t # rest)"
    using ih(4) sub2 unfolding t scored_edges_Cons by blast
  have uv: "(u, v) \<in> (edges_of al')\<^sup>* \<and> (v, u) \<in> (edges_of al')\<^sup>*"
  proof (cases b)
    case True
    then have "(u, v) \<in> edges_of ?al1" "(v, u) \<in> edges_of ?al1" by (simp_all add: edges_of_add)
    with ih(3) show ?thesis by blast
  next
    case False
    with st(2) have "(u, v) \<in> ?E\<^sup>*" by simp
    then have "(u, v) \<in> ?E\<^sup>* \<and> (v, u) \<in> ?E\<^sup>*" using symr by blast
    moreover have "?E\<^sup>* \<subseteq> (edges_of al')\<^sup>*" using c1 by (rule rtrancl_mono)
    ultimately show ?thesis by blast
  qed
  have c3: "scored_edges (t # rest) \<subseteq> (edges_of al')\<^sup>*"
    using uv ih(5) unfolding t scored_edges_Cons by blast
  have c4: "card (forest_edges al') + card {r. p' r = Some r}
         = card (forest_edges al) + card {r. p r = Some r}"
  proof (cases b)
    case True
    with st(2) have "(u, v) \<notin> ?E\<^sup>*" by simp
    from card_forest_edges_add[OF symE sub this] True ih(6) st(4) show ?thesis by simp
  next
    case False
    with ih(6) st(4) show ?thesis by simp
  qed
  from run ih(2) c1 c2 c3 c4 show ?case by (intro exI[of _ p'] exI[of _ al'] conjI)
qed

lemma successively_rtrancl:
  "successively (\<lambda>a b. (a, b) \<in> E) xs \<Longrightarrow> xs \<noteq> [] \<Longrightarrow> (hd xs, last xs) \<in> E\<^sup>*"
proof (induction xs rule: induct_list012)
  case (3 x y zs)
  then have "(x, y) \<in> E" "(y, last (y # zs)) \<in> E\<^sup>*" by simp_all
  then show ?case by (simp add: converse_rtrancl_into_rtrancl)
qed simp_all

lemma successively_avoid:
  "successively (\<lambda>x y. (x, y) \<in> E \<union> {(a, b), (b, a)}) xs \<Longrightarrow> a \<notin> set xs \<Longrightarrow>
   successively (\<lambda>x y. (x, y) \<in> E) xs"
  by (induction xs rule: induct_list012) auto

lemma successively_zip:
  "successively P xs \<Longrightarrow> (a, b) \<in> set (zip xs (tl xs)) \<Longrightarrow> P a b"
  by (induction xs rule: induct_list012) auto

lemma path_split_new_edge:
  "successively (\<lambda>x y. (x, y) \<in> E \<union> {(a, b), (b, a)}) xs \<Longrightarrow> distinct xs \<Longrightarrow> xs \<noteq> [] \<Longrightarrow>
   successively (\<lambda>x y. (x, y) \<in> E) xs
   \<or> ((hd xs, a) \<in> E\<^sup>* \<and> (b, last xs) \<in> E\<^sup>*)
   \<or> ((hd xs, b) \<in> E\<^sup>* \<and> (a, last xs) \<in> E\<^sup>*)"
proof (induction xs rule: induct_list012)
  case 1
  then show ?case by simp
next
  case (2 x)
  then show ?case by simp
next
  case (3 x y zs)
  from "3.prems" have e: "(x, y) \<in> E \<union> {(a, b), (b, a)}"
    and tl: "successively (\<lambda>x y. (x, y) \<in> E \<union> {(a, b), (b, a)}) (y # zs)"
    and d: "distinct (y # zs)" and nx: "x \<notin> set (y # zs)" by simp_all
  have eb: "E \<union> {(a, b), (b, a)} = E \<union> {(b, a), (a, b)}" by auto
  consider (old) "(x, y) \<in> E" | (ab) "x = a" "y = b" | (ba) "x = b" "y = a"
    using e by auto
  then show ?case
  proof cases
    case old
    from "3.IH"(2)[OF tl d] have
      "successively (\<lambda>x y. (x, y) \<in> E) (y # zs)
       \<or> ((y, a) \<in> E\<^sup>* \<and> (b, last (y # zs)) \<in> E\<^sup>*)
       \<or> ((y, b) \<in> E\<^sup>* \<and> (a, last (y # zs)) \<in> E\<^sup>*)" by simp
    then show ?thesis
    proof (elim disjE conjE)
      assume "successively (\<lambda>x y. (x, y) \<in> E) (y # zs)"
      with old show ?thesis by simp
    next
      assume "(y, a) \<in> E\<^sup>*" "(b, last (y # zs)) \<in> E\<^sup>*"
      with old have "(x, a) \<in> E\<^sup>*" by (simp add: converse_rtrancl_into_rtrancl)
      with \<open>(b, last (y # zs)) \<in> E\<^sup>*\<close> show ?thesis by simp
    next
      assume "(y, b) \<in> E\<^sup>*" "(a, last (y # zs)) \<in> E\<^sup>*"
      with old have "(x, b) \<in> E\<^sup>*" by (simp add: converse_rtrancl_into_rtrancl)
      with \<open>(a, last (y # zs)) \<in> E\<^sup>*\<close> show ?thesis by simp
    qed
  next
    case ab
    with nx have "a \<notin> set (y # zs)" by simp
    from successively_avoid[OF tl this] have "successively (\<lambda>x y. (x, y) \<in> E) (y # zs)" .
    from successively_rtrancl[OF this] ab have "(b, last (y # zs)) \<in> E\<^sup>*" by simp
    with ab show ?thesis by simp
  next
    case ba
    with nx have "b \<notin> set (y # zs)" by simp
    from successively_avoid[of E b a, OF tl[unfolded eb] this]
    have "successively (\<lambda>x y. (x, y) \<in> E) (y # zs)" .
    from successively_rtrancl[OF this] ba have "(a, last (y # zs)) \<in> E\<^sup>*" by simp
    with ba show ?thesis by simp
  qed
qed

lemma new_edge_only_path:
  assumes nc: "(u, v) \<notin> E\<^sup>*"
    and p: "path_in (E \<union> {(u, v), (v, u)}) xs" and h: "hd xs = u" and l: "last xs = v"
  shows "xs = [u, v]"
proof -
  from nc have ne: "u \<noteq> v" by auto
  from p have nonempty: "xs \<noteq> []" and d: "distinct xs"
    and s: "successively (\<lambda>x y. (x, y) \<in> E \<union> {(u, v), (v, u)}) xs"
    by (simp_all add: path_in_def)
  from nonempty h obtain ys where xs: "xs = u # ys" by (cases xs) auto
  with l ne have "ys \<noteq> []" by auto
  then obtain y zs where ys: "ys = y # zs" by (cases ys) auto
  from s xs ys have e: "(u, y) \<in> E \<union> {(u, v), (v, u)}"
    and tl: "successively (\<lambda>x y. (x, y) \<in> E \<union> {(u, v), (v, u)}) (y # zs)" by simp_all
  from d xs ys have nu: "u \<notin> set (y # zs)" and dt: "distinct (y # zs)" by simp_all
  from successively_avoid[OF tl nu] have "successively (\<lambda>x y. (x, y) \<in> E) (y # zs)" .
  from successively_rtrancl[OF this] l xs ys have yv: "(y, v) \<in> E\<^sup>*" by simp
  have "(u, y) \<notin> E"
  proof
    assume "(u, y) \<in> E"
    with yv have "(u, v) \<in> E\<^sup>*" by (simp add: converse_rtrancl_into_rtrancl)
    with nc show False by simp
  qed
  with e ne have "y = v" by auto
  have "zs = []"
  proof (rule ccontr)
    assume "zs \<noteq> []"
    with l xs ys have "last zs = v" by simp
    with \<open>zs \<noteq> []\<close> have "v \<in> set zs" using last_in_set by metis
    with dt \<open>y = v\<close> show False by simp
  qed
  with xs ys \<open>y = v\<close> show ?thesis by simp
qed

lemma sym_rtrancl_sym: "sym E \<Longrightarrow> (a, b) \<in> E\<^sup>* \<Longrightarrow> (b, a) \<in> E\<^sup>*"
  using sym_rtrancl by (metis symD)

lemma add_edges_old_paths:
  "forest_inv n p al \<Longrightarrow> list_all (\<lambda>(s, u, v). u < n \<and> v < n) rest \<Longrightarrow>
   add_edges p al rest = Some (p', al') \<Longrightarrow> (x, y) \<in> (edges_of al)\<^sup>* \<Longrightarrow>
   path_in (edges_of al') xs \<Longrightarrow> hd xs = x \<Longrightarrow> last xs = y \<Longrightarrow>
   successively (\<lambda>a b. (a, b) \<in> edges_of al) xs"
proof (induction rest arbitrary: p al)
  case Nil
  then show ?case by (simp add: path_in_def)
next
  case (Cons t rest)
  obtain s u v where t: "t = (s, u, v)" by (cases t)
  with Cons.prems have u: "u < n" and v: "v < n"
    and rest: "list_all (\<lambda>(s, u, v). u < n \<and> v < n) rest" by simp_all
  let ?E = "edges_of al"
  from Cons.prems(1) have symE: "sym ?E" by (simp add: forest_inv_def)
  from forest_step[OF Cons.prems(1) u v] obtain p1 b where
    st: "dsu_union p u v = Some (p1, b)" "b \<longleftrightarrow> (u, v) \<notin> ?E\<^sup>*"
    "forest_inv n p1 (if b then adj_append (adj_append al u v) v u else al)"
    by (elim exE conjE)
  let ?al1 = "if b then adj_append (adj_append al u v) v u else al"
  from Cons.prems(3) st(1) t have run: "add_edges p1 ?al1 rest = Some (p', al')"
    by (cases b) simp_all
  have "?E \<subseteq> edges_of ?al1" by (auto simp: edges_of_add)
  then have "?E\<^sup>* \<subseteq> (edges_of ?al1)\<^sup>*" by (rule rtrancl_mono)
  with Cons.prems(4) have xy1: "(x, y) \<in> (edges_of ?al1)\<^sup>*" by blast
  from Cons.IH[OF st(3) rest run xy1 Cons.prems(5,6,7)]
  have s1: "successively (\<lambda>a b. (a, b) \<in> edges_of ?al1) xs" .
  show ?case
  proof (cases b)
    case False
    with s1 show ?thesis by simp
  next
    case True
    with s1 have s2: "successively (\<lambda>a b. (a, b) \<in> ?E \<union> {(u, v), (v, u)}) xs"
      by (simp add: edges_of_add)
    from Cons.prems(5) have d: "distinct xs" and ne: "xs \<noteq> []" by (simp_all add: path_in_def)
    from True st(2) have nc: "(u, v) \<notin> ?E\<^sup>*" by simp
    note xy = Cons.prems(4)
    from path_split_new_edge[OF s2 d ne] show ?thesis
    proof (elim disjE conjE)
      assume "(hd xs, u) \<in> ?E\<^sup>*" "(v, last xs) \<in> ?E\<^sup>*"
      with Cons.prems(6,7) have "(u, x) \<in> ?E\<^sup>*" "(y, v) \<in> ?E\<^sup>*"
        using sym_rtrancl_sym[OF symE] by auto
      with xy have "(u, v) \<in> ?E\<^sup>*" by (meson rtrancl_trans)
      with nc show ?thesis by simp
    next
      assume "(hd xs, v) \<in> ?E\<^sup>*" "(u, last xs) \<in> ?E\<^sup>*"
      with Cons.prems(6,7) have "(x, v) \<in> ?E\<^sup>*" "(u, y) \<in> ?E\<^sup>*" by auto
      moreover have "(y, x) \<in> ?E\<^sup>*" using xy sym_rtrancl_sym[OF symE] by auto
      ultimately have "(u, v) \<in> ?E\<^sup>*" by (meson rtrancl_trans)
      with nc show ?thesis by simp
    qed
  qed
qed

lemma tree_edges_add:
  assumes symE: "sym E" and t: "tree_edges E" and nc: "(u, v) \<notin> E\<^sup>*"
  shows "tree_edges (E \<union> {(u, v), (v, u)})"
  unfolding tree_edges_def
proof (intro allI impI, elim conjE)
  fix a b xs
  assume ab: "(a, b) \<in> E \<union> {(u, v), (v, u)}"
    and p: "path_in (E \<union> {(u, v), (v, u)}) xs" and h: "hd xs = a" and l: "last xs = b"
  from nc have ncr: "(v, u) \<notin> E\<^sup>*" using sym_rtrancl_sym[OF symE] by blast
  have comm: "E \<union> {(u, v), (v, u)} = E \<union> {(v, u), (u, v)}" by auto
  consider (old) "(a, b) \<in> E" | (uv) "a = u" "b = v" | (vu) "a = v" "b = u"
    using ab by auto
  then show "xs = [a, b]"
  proof cases
    case old
    from p have d: "distinct xs" and ne: "xs \<noteq> []"
      and s: "successively (\<lambda>x y. (x, y) \<in> E \<union> {(u, v), (v, u)}) xs"
      by (simp_all add: path_in_def)
    from old have abr: "(a, b) \<in> E\<^sup>*" by auto
    from path_split_new_edge[OF s d ne]
    have "successively (\<lambda>x y. (x, y) \<in> E) xs"
    proof (elim disjE conjE)
      assume "(hd xs, u) \<in> E\<^sup>*" "(v, last xs) \<in> E\<^sup>*"
      with h l have "(u, a) \<in> E\<^sup>*" "(b, v) \<in> E\<^sup>*" using sym_rtrancl_sym[OF symE] by auto
      with abr have "(u, v) \<in> E\<^sup>*" by (meson rtrancl_trans)
      with nc show ?thesis by simp
    next
      assume "(hd xs, v) \<in> E\<^sup>*" "(u, last xs) \<in> E\<^sup>*"
      with h l have "(a, v) \<in> E\<^sup>*" "(u, b) \<in> E\<^sup>*" by auto
      moreover have "(b, a) \<in> E\<^sup>*" using abr sym_rtrancl_sym[OF symE] by auto
      ultimately have "(u, v) \<in> E\<^sup>*" by (meson rtrancl_trans)
      with nc show ?thesis by simp
    qed
    with d ne have "path_in E xs" by (simp add: path_in_def)
    with t old h l show ?thesis unfolding tree_edges_def by blast
  next
    case uv
    from new_edge_only_path[OF nc p] h l uv show ?thesis by simp
  next
    case vu
    from new_edge_only_path[OF ncr p[unfolded comm]] h l vu show ?thesis by simp
  qed
qed

lemma add_edges_tree:
  "forest_inv n p al \<Longrightarrow> list_all (\<lambda>(s, u, v). u < n \<and> v < n) rest \<Longrightarrow>
   add_edges p al rest = Some (p', al') \<Longrightarrow> tree_edges (edges_of al) \<Longrightarrow>
   tree_edges (edges_of al')"
proof (induction rest arbitrary: p al)
  case Nil
  then show ?case by simp
next
  case (Cons t rest)
  obtain s u v where t: "t = (s, u, v)" by (cases t)
  with Cons.prems have u: "u < n" and v: "v < n"
    and rest: "list_all (\<lambda>(s, u, v). u < n \<and> v < n) rest" by simp_all
  let ?E = "edges_of al"
  from Cons.prems(1) have symE: "sym ?E" by (simp add: forest_inv_def)
  from forest_step[OF Cons.prems(1) u v] obtain p1 b where
    st: "dsu_union p u v = Some (p1, b)" "b \<longleftrightarrow> (u, v) \<notin> ?E\<^sup>*"
    "forest_inv n p1 (if b then adj_append (adj_append al u v) v u else al)"
    by (elim exE conjE)
  let ?al1 = "if b then adj_append (adj_append al u v) v u else al"
  from Cons.prems(3) st(1) t have run: "add_edges p1 ?al1 rest = Some (p', al')"
    by (cases b) simp_all
  have "tree_edges (edges_of ?al1)"
  proof (cases b)
    case True
    with st(2) have "(u, v) \<notin> ?E\<^sup>*" by simp
    from tree_edges_add[OF symE Cons.prems(4) this] True show ?thesis
      by (simp add: edges_of_add)
  next
    case False
    with Cons.prems(4) show ?thesis by simp
  qed
  from Cons.IH[OF st(3) rest run this] show ?case .
qed

lemma add_edges_max:
  "forest_inv n p al \<Longrightarrow> list_all (\<lambda>(s, u, v). u < n \<and> v < n) rest \<Longrightarrow>
   sorted (map (\<lambda>x. - fst x) rest) \<Longrightarrow> set rest \<subseteq> S \<Longrightarrow>
   (\<forall>a b. (a, b) \<in> edges_of al \<longrightarrow>
      (\<exists>s'. ((s', a, b) \<in> S \<or> (s', b, a) \<in> S) \<and> (\<forall>t \<in> set rest. fst t \<le> s'))) \<Longrightarrow>
   add_edges p al rest = Some (p', al') \<Longrightarrow>
   (s, u, v) \<in> set rest \<Longrightarrow> v \<notin> set (adj_get al' u) \<Longrightarrow>
   path_in (edges_of al') xs \<Longrightarrow> hd xs = u \<Longrightarrow> last xs = v \<Longrightarrow>
   (a, b) \<in> set (zip xs (tl xs)) \<Longrightarrow>
   \<exists>s'. ((s', a, b) \<in> S \<or> (s', b, a) \<in> S) \<and> s \<le> s'"
proof (induction rest arbitrary: p al)
  case Nil
  then show ?case by simp
next
  case (Cons t rest)
  obtain s0 u0 v0 where t: "t = (s0, u0, v0)" by (cases t)
  with Cons.prems have u0: "u0 < n" and v0: "v0 < n"
    and rest: "list_all (\<lambda>(s, u, v). u < n \<and> v < n) rest" by simp_all
  let ?E = "edges_of al"
  from Cons.prems(1) have symE: "sym ?E" by (simp add: forest_inv_def)
  from forest_step[OF Cons.prems(1) u0 v0] obtain p1 acc where
    st: "dsu_union p u0 v0 = Some (p1, acc)" "acc \<longleftrightarrow> (u0, v0) \<notin> ?E\<^sup>*"
    "forest_inv n p1 (if acc then adj_append (adj_append al u0 v0) v0 u0 else al)"
    by (elim exE conjE)
  let ?al1 = "if acc then adj_append (adj_append al u0 v0) v0 u0 else al"
  from Cons.prems(6) st(1) t have run: "add_edges p1 ?al1 rest = Some (p', al')"
    by (cases acc) simp_all
  from Cons.prems(3) have sorted_rest: "sorted (map (\<lambda>x. - fst x) rest)"
    and head_ge: "\<forall>t' \<in> set rest. fst t' \<le> s0" using t by auto
  from Cons.prems(4) have sub: "set rest \<subseteq> S" and tS: "(s0, u0, v0) \<in> S" using t by auto
  have wit1: "\<forall>a b. (a, b) \<in> edges_of ?al1 \<longrightarrow>
      (\<exists>s'. ((s', a, b) \<in> S \<or> (s', b, a) \<in> S) \<and> (\<forall>t \<in> set rest. fst t \<le> s'))"
  proof (intro allI impI)
    fix a b assume ab: "(a, b) \<in> edges_of ?al1"
    show "\<exists>s'. ((s', a, b) \<in> S \<or> (s', b, a) \<in> S) \<and> (\<forall>t \<in> set rest. fst t \<le> s')"
    proof (cases "(a, b) \<in> ?E")
      case True
      with Cons.prems(5) obtain s' where "(s', a, b) \<in> S \<or> (s', b, a) \<in> S"
        "\<forall>t \<in> set (t # rest). fst t \<le> s'" by blast
      then show ?thesis by (intro exI[of _ s']) simp
    next
      case False
      with ab have "acc" by (cases acc) simp_all
      with ab False have "(a, b) = (u0, v0) \<or> (a, b) = (v0, u0)" by (auto simp: edges_of_add)
      with tS head_ge show ?thesis by (intro exI[of _ s0]) auto
    qed
  qed
  show ?case
  proof (cases "(s, u, v) \<in> set rest")
    case True
    from Cons.IH[OF st(3) rest sorted_rest sub wit1 run True Cons.prems(8,9,10,11,12)]
    show ?thesis .
  next
    case False
    with Cons.prems(7) t have eq: "s = s0" "u = u0" "v = v0" by auto
    from add_edges_inv[OF st(3) rest] run have mono: "edges_of ?al1 \<subseteq> edges_of al'" by auto
    have nb: "\<not> acc"
    proof
      assume acc
      then have "(u0, v0) \<in> edges_of ?al1" by (simp add: edges_of_add)
      with mono have "(u0, v0) \<in> edges_of al'" by blast
      with Cons.prems(8) eq show False by (simp add: edges_of_def)
    qed
    with st(2) eq have conn: "(u, v) \<in> ?E\<^sup>*" by simp
    from nb run have run': "add_edges p1 al rest = Some (p', al')" by simp
    from nb st(3) have inv1: "forest_inv n p1 al" by simp
    from add_edges_old_paths[OF inv1 rest run' conn Cons.prems(9,10,11)]
    have "successively (\<lambda>a b. (a, b) \<in> ?E) xs" .
    from successively_zip[OF this Cons.prems(12)] have "(a, b) \<in> ?E" .
    with Cons.prems(5) obtain s' where "(s', a, b) \<in> S \<or> (s', b, a) \<in> S"
      "\<forall>t \<in> set (t # rest). fst t \<le> s'" by blast
    with t eq show ?thesis by (intro exI[of _ s']) simp
  qed
qed

lemma forest_inv_init: "forest_inv n (dsu_init [0..<n]) []"
proof -
  have "\<And>x y. x < n \<Longrightarrow> y < n \<Longrightarrow> same_set (dsu_init [0..<n]) x y \<longleftrightarrow> x = y"
  proof -
    fix x y assume x: "x < n" and y: "y < n"
    have rx: "\<And>z r. z < n \<Longrightarrow> rep (dsu_init [0..<n]) z r \<longleftrightarrow> r = z"
      using rep_of_root[of "dsu_init [0..<n]"] by (simp add: dsu_init_apply)
    show "same_set (dsu_init [0..<n]) x y \<longleftrightarrow> x = y"
      using rx[OF x] rx[OF y] by (auto simp: same_set_def)
  qed
  then show ?thesis
    by (simp add: forest_inv_def dsu_inv_init dom_dsu_init edges_of_Nil sym_def)
qed

lemma card_roots_components:
  assumes inv: "forest_inv n p al"
  shows "card {r. p r = Some r} = card (components n (edges_of al))"
proof -
  let ?E = "edges_of al"
  let ?R = "{(x, y). x < n \<and> y < n \<and> (x, y) \<in> ?E\<^sup>*}"
  let ?roots = "{r. p r = Some r}"
  let ?cls = "\<lambda>r. {z. z < n \<and> rep p z r}"
  from inv have dinv: "dsu_inv p" and dom: "dom p = {0..<n}"
    and conn: "\<And>x y. x < n \<Longrightarrow> y < n \<Longrightarrow> same_set p x y \<longleftrightarrow> (x, y) \<in> ?E\<^sup>*"
    by (auto simp: forest_inv_def)
  have rep_at: "\<And>x. x < n \<Longrightarrow> \<exists>s. rep p x s"
  proof -
    fix x assume "x < n"
    with dom have "x \<in> dom p" by simp
    from dsu_inv_rep[OF dinv this] show "\<exists>s. rep p x s" .
  qed
  have cls: "\<And>x r. x < n \<Longrightarrow> rep p x r \<Longrightarrow> ?R `` {x} = ?cls r"
  proof -
    fix x r assume x: "x < n" and r: "rep p x r"
    show "?R `` {x} = ?cls r"
    proof (intro set_eqI iffI)
      fix z assume "z \<in> ?R `` {x}"
      then have z: "z < n" and "(x, z) \<in> ?E\<^sup>*" by auto
      with conn[OF x z] have "same_set p x z" by simp
      with r have "rep p z r" using rep_fun[of p x] by (auto simp: same_set_def)
      with z show "z \<in> ?cls r" by simp
    next
      fix z assume "z \<in> ?cls r"
      then have z: "z < n" and "rep p z r" by simp_all
      with r have "same_set p x z" by (auto simp: same_set_def)
      with conn[OF x z] x z show "z \<in> ?R `` {x}" by simp
    qed
  qed
  have root_lt: "\<And>r. p r = Some r \<Longrightarrow> r < n" using dom by auto
  have "components n ?E = ?cls ` ?roots"
  proof (intro set_eqI iffI)
    fix c assume "c \<in> components n ?E"
    then obtain x where x: "x < n" and c: "c = ?R `` {x}"
      by (auto simp: components_def quotient_def)
    from rep_at[OF x] obtain r where r: "rep p x r" ..
    then have "p r = Some r" by (rule rep_is_root)
    with cls[OF x r] c show "c \<in> ?cls ` ?roots" by blast
  next
    fix c assume "c \<in> ?cls ` ?roots"
    then obtain r where r: "p r = Some r" and c: "c = ?cls r" by auto
    from r have "rep p r r" by (rule rep.rep_root)
    from cls[OF root_lt[OF r] this] c have "c = ?R `` {r}" by simp
    with root_lt[OF r] show "c \<in> components n ?E"
      by (auto simp: components_def quotient_def)
  qed
  moreover have "inj_on ?cls ?roots"
  proof (rule inj_onI)
    fix r1 r2 assume r1: "r1 \<in> ?roots" and r2: "r2 \<in> ?roots" and e: "?cls r1 = ?cls r2"
    from r1 have "rep p r1 r1" by (simp add: rep.rep_root)
    with r1 root_lt have "r1 \<in> ?cls r1" by simp
    with e have "rep p r1 r2" by simp
    with r1 show "r1 = r2" using rep_of_root[of p r1 r2] by simp
  qed
  ultimately show ?thesis by (simp add: card_image)
qed

lemma score_unique:
  assumes v: "valid_scores n S"
    and 1: "(s1, a, b) \<in> set S \<or> (s1, b, a) \<in> set S"
    and 2: "(s2, a, b) \<in> set S \<or> (s2, b, a) \<in> set S"
  shows "s1 = s2"
proof -
  from v have inj: "inj_on snd (set S)" and lt: "\<And>s u v. (s, u, v) \<in> set S \<Longrightarrow> u < v"
    by (auto simp: valid_scores_def distinct_map list_all_iff)
  have same: "\<And>s s' u v. (s, u, v) \<in> set S \<Longrightarrow> (s', u, v) \<in> set S \<Longrightarrow> s = s'"
  proof -
    fix s s' u v assume a: "(s, u, v) \<in> set S" "(s', u, v) \<in> set S"
    from inj_onD[OF inj _ a] show "s = s'" by simp
  qed
  from 1 2 show ?thesis
  proof (elim disjE)
    assume "(s1, a, b) \<in> set S" "(s2, a, b) \<in> set S"
    then show ?thesis by (rule same)
  next
    assume "(s1, b, a) \<in> set S" "(s2, b, a) \<in> set S"
    then show ?thesis by (rule same)
  next
    assume "(s1, a, b) \<in> set S" "(s2, b, a) \<in> set S"
    then have "a < b" "b < a" by (auto dest: lt)
    then show ?thesis by simp
  next
    assume "(s1, b, a) \<in> set S" "(s2, a, b) \<in> set S"
    then have "a < b" "b < a" by (auto dest: lt)
    then show ?thesis by simp
  qed
qed

lemma set_sort_scores: "set (sort_scores S) = set S"
  by (simp add: sort_scores_def)

lemma scored_edges_sort: "scored_edges (sort_scores S) = scored_edges S"
  by (simp add: scored_edges_def set_sort_scores)

lemma sorted_sort_scores: "sorted (map (\<lambda>x. - fst x) (sort_scores S))"
  by (simp add: sort_scores_def)

text \<open>
  C3. For the scored pairs of a run (every pair once, smaller id first, ids of frames),
  building the forest returns, and the adjacency it returns is a spanning forest of the
  similarity graph: it is symmetric, its edges are scored pairs, it connects exactly the
  frames the scored pairs connect, the only path between the two ends of one of its edges
  is that edge (no cycle), and it has (number of frames - number of connected components)
  edges. It is a maximum one in the sense of the cut property: for a scored pair (u, v)
  that is not an edge of the forest, every edge on a forest path from u to v has a score
  at least the score of (u, v).
\<close>

theorem spanning_forest_maximum:
  assumes v: "valid_scores n all_scores"
  shows "\<exists>dsu al. spanning_forest n all_scores = Some (dsu, al)
     \<and> sym (edges_of al) \<and> edges_of al \<subseteq> scored_edges all_scores
     \<and> (edges_of al)\<^sup>* = (scored_edges all_scores)\<^sup>*
     \<and> tree_edges (edges_of al)
     \<and> card (forest_edges al) = n - card (components n (scored_edges all_scores))
     \<and> (\<forall>s u v xs a b s'.
          (s, u, v) \<in> set all_scores \<and> v \<notin> set (adj_get al u)
          \<and> path_in (edges_of al) xs \<and> hd xs = u \<and> last xs = v
          \<and> (a, b) \<in> set (zip xs (tl xs))
          \<and> ((s', a, b) \<in> set all_scores \<or> (s', b, a) \<in> set all_scores)
          \<longrightarrow> s \<le> s')"
proof -
  let ?L = "sort_scores all_scores"
  let ?p0 = "dsu_init [0..<n]"
  from v have ids: "list_all (\<lambda>(s, u, v). u < n \<and> v < n) ?L"
    by (auto simp: valid_scores_def list_all_iff set_sort_scores)
  from add_edges_inv[OF forest_inv_init ids] obtain p' al' where
    r: "add_edges ?p0 [] ?L = Some (p', al')" "forest_inv n p' al'"
    "edges_of al' \<subseteq> edges_of [] \<union> scored_edges ?L"
    "scored_edges ?L \<subseteq> (edges_of al')\<^sup>*"
    "card (forest_edges al') + card {r. p' r = Some r}
         = card (forest_edges []) + card {r. ?p0 r = Some r}"
    by (elim exE conjE)
  have run: "spanning_forest n all_scores = Some (p', al')"
    using r(1) by (simp add: spanning_forest_def)
  have symE: "sym (edges_of al')" using r(2) by (simp add: forest_inv_def)
  have sub: "edges_of al' \<subseteq> scored_edges all_scores"
    using r(3) by (simp add: edges_of_Nil scored_edges_sort)
  have "(edges_of al')\<^sup>* \<subseteq> (scored_edges all_scores)\<^sup>*" using sub by (rule rtrancl_mono)
  moreover have "(scored_edges all_scores)\<^sup>* \<subseteq> (edges_of al')\<^sup>*"
    using r(4) by (simp add: scored_edges_sort rtrancl_subset_rtrancl)
  ultimately have conn: "(edges_of al')\<^sup>* = (scored_edges all_scores)\<^sup>*" by blast
  have "tree_edges (edges_of [])" by (simp add: tree_edges_def edges_of_Nil path_in_def)
  from add_edges_tree[OF forest_inv_init ids r(1) this] have tree: "tree_edges (edges_of al')" .
  have "{r. ?p0 r = Some r} = {0..<n}" by (auto simp: dsu_init_apply)
  moreover have "forest_edges [] = {}" by (simp add: forest_edges_def adj_get_def)
  ultimately have "card (forest_edges al') + card {r. p' r = Some r} = n" using r(5) by simp
  moreover have "card {r. p' r = Some r} = card (components n (scored_edges all_scores))"
    using card_roots_components[OF r(2)] conn by (simp add: components_def)
  ultimately have cnt: "card (forest_edges al') = n - card (components n (scored_edges all_scores))"
    by simp
  have mx: "\<forall>s u v xs a b s'.
          (s, u, v) \<in> set all_scores \<and> v \<notin> set (adj_get al' u)
          \<and> path_in (edges_of al') xs \<and> hd xs = u \<and> last xs = v
          \<and> (a, b) \<in> set (zip xs (tl xs))
          \<and> ((s', a, b) \<in> set all_scores \<or> (s', b, a) \<in> set all_scores)
          \<longrightarrow> s \<le> s'"
  proof (intro allI impI, elim conjE)
    fix s u v xs a b s'
    assume t: "(s, u, v) \<in> set all_scores" and nf: "v \<notin> set (adj_get al' u)"
      and p: "path_in (edges_of al') xs" and h: "hd xs = u" and l: "last xs = v"
      and ab: "(a, b) \<in> set (zip xs (tl xs))"
      and s': "(s', a, b) \<in> set all_scores \<or> (s', b, a) \<in> set all_scores"
    have w0: "\<forall>a b. (a, b) \<in> edges_of [] \<longrightarrow>
      (\<exists>s'. ((s', a, b) \<in> set all_scores \<or> (s', b, a) \<in> set all_scores)
          \<and> (\<forall>t \<in> set ?L. fst t \<le> s'))"
      by (simp add: edges_of_Nil)
    have inL: "(s, u, v) \<in> set ?L" using t by (simp add: set_sort_scores)
    have subL: "set ?L \<subseteq> set all_scores" by (simp add: set_sort_scores)
    from add_edges_max[OF forest_inv_init ids sorted_sort_scores subL w0 r(1) inL nf p h l ab]
    obtain s'' where s'': "(s'', a, b) \<in> set all_scores \<or> (s'', b, a) \<in> set all_scores"
      "s \<le> s''" by (elim exE conjE)
    from score_unique[OF v s''(1) s'] s''(2) show "s \<le> s'" by simp
  qed
  from run symE sub conn tree cnt mx show ?thesis
    by (intro exI[of _ p'] exI[of _ al'] conjI)
qed

theorem spanning_forest_maximum_witness:
  "valid_scores 3 [(2, 0, 1), (4, 0, 2), (3, 1, 2)]
   \<and> (\<exists>dsu al. spanning_forest 3 [(2, 0, 1), (4, 0, 2), (3, 1, 2)] = Some (dsu, al)
        \<and> card (forest_edges al)
            = 3 - card (components 3 (scored_edges [(2, 0, 1), (4, 0, 2), (3, 1, 2)])))"
proof -
  have v: "valid_scores 3 [(2, 0, 1), (4, 0, 2), (3, 1, 2)]"
    by (simp add: valid_scores_def)
  from spanning_forest_maximum[OF v] v show ?thesis by blast
qed

section \<open>Properties of the pipeline\<close>











text \<open>
  C8. With fewer than two discovered images the run stops before anything else happens:
  no pair is scored, no manifest is written, no root is copied, no frame is encoded and no
  archive is created.
\<close>

theorem too_few_images_abort:
  assumes "length source < 2"
  shows "main env input_dir is_dir output_dir source =
     \<lparr>outcome = (if is_dir then TooFewImages else NotADirectory), scored_pairs = [],
      manifest_written = None, copied_roots = [], encoded = [], created_archive = None\<rparr>"
  using assms by (simp add: main_def stopped_def)

theorem too_few_images_abort_witness:
  "length [(''0.png'', Picture 70 (solid 1 1 (1, 2, 3)))] < 2
   \<and> created_archive (main quiet_env ''in'' True ''tmp''
         [(''0.png'', Picture 70 (solid 1 1 (1, 2, 3)))]) = None
   \<and> outcome (main quiet_env ''in'' True ''tmp''
         [(''0.png'', Picture 70 (solid 1 1 (1, 2, 3)))]) = TooFewImages
   \<and> scored_pairs (main quiet_env ''in'' True ''tmp''
         [(''0.png'', Picture 70 (solid 1 1 (1, 2, 3)))]) = []"
proof -
  have "length [(''0.png'', Picture 70 (solid 1 1 (1, 2, 3)))] < 2" by simp
  from too_few_images_abort[OF this, of quiet_env "''in''" True "''tmp''"] show ?thesis
    by simp
qed

end
